theory Spec2Isabelle
  imports Complex_Main
begin

section \<open>Strings as the resolver uses them\<close>

text \<open>
  JavaScript strings are modelled as \<open>string\<close> (lists of 8-bit characters), so the
  model covers ASCII text: \<open>toLowerCase\<close> maps \<open>A..Z\<close> to \<open>a..z\<close> and leaves every other
  character alone, and white space (\<open>trim\<close>, the class \<open>\s\<close>) is the six ASCII
  white-space characters. JavaScript numbers that carry scores and weights are modelled as
  \<open>real\<close>; counts and limits are \<open>nat\<close>, the parsed brightness is an \<open>int\<close>.
\<close>

definition lowerChar :: "char \<Rightarrow> char" where
  "lowerChar c =
     (case map_of (zip ''ABCDEFGHIJKLMNOPQRSTUVWXYZ'' ''abcdefghijklmnopqrstuvwxyz'') c of
        Some d \<Rightarrow> d
      | None \<Rightarrow> c)"

definition toLowerCase :: "string \<Rightarrow> string" where
  "toLowerCase s = map lowerChar s"

definition isSpace :: "char \<Rightarrow> bool" where
  "isSpace c = (c \<in> set [CHR '' '', CHR 0x09, CHR 0x0A, CHR 0x0B, CHR 0x0C, CHR 0x0D])"

definition isDigit :: "char \<Rightarrow> bool" where
  "isDigit c = (c \<in> set ''0123456789'')"

definition isLowerAlnum :: "char \<Rightarrow> bool" where
  "isLowerAlnum c = (c \<in> set ''abcdefghijklmnopqrstuvwxyz0123456789'')"

definition notLineTerminator :: "char \<Rightarrow> bool" where
  "notLineTerminator c = (c \<notin> set [CHR 0x0A, CHR 0x0D])"

definition trim :: "string \<Rightarrow> string" where
  "trim s = rev (dropWhile isSpace (rev (dropWhile isSpace s)))"

definition startsWith :: "string \<Rightarrow> string \<Rightarrow> bool" where
  "startsWith s p = (take (length p) s = p)"

text \<open>\<open>includesStr s t\<close> is \<open>s.includes(t)\<close>: \<open>t\<close> occurs in \<open>s\<close> as a contiguous substring.\<close>

fun includesStr :: "string \<Rightarrow> string \<Rightarrow> bool" where
  "includesStr [] t = (t = [])"
| "includesStr (c # cs) t = (startsWith (c # cs) t \<or> includesStr cs t)"

text \<open>\<open>joinWith sep xs\<close> is \<open>xs.join(sep)\<close>.\<close>

fun joinWith :: "string \<Rightarrow> string list \<Rightarrow> string" where
  "joinWith sep [] = []"
| "joinWith sep [x] = x"
| "joinWith sep (x # y # ys) = x @ sep @ joinWith sep (y # ys)"

section \<open>Regular expressions\<close>

text \<open>
  The resolver's regular expressions use literals, character classes under a quantifier,
  sequence, alternation, optional groups, capture groups and the end anchor. \<open>rmatch\<close>
  returns every way the expression can match a prefix of the input, in the order in which
  a backtracking matcher tries them (an alternation tries its left branch first, a greedy
  quantifier the longest run first, a lazy one the shortest), each with the captures and
  the rest of the input. The first element is therefore the match JavaScript reports.
\<close>

datatype regex =
    Lit string
  | LitI string
  | Rep bool nat "nat option" "char \<Rightarrow> bool"
  | Seq regex regex
  | Alt regex regex
  | Opt regex
  | Group nat regex
  | Eos

type_synonym captures = "nat \<Rightarrow> string option"

text \<open>The rests of the input after 0, 1, 2, ... leading characters of the class.\<close>

fun runs :: "(char \<Rightarrow> bool) \<Rightarrow> string \<Rightarrow> string list" where
  "runs p [] = [[]]"
| "runs p (c # cs) = (c # cs) # (if p c then runs p cs else [])"

definition repRests :: "bool \<Rightarrow> nat \<Rightarrow> nat option \<Rightarrow> (char \<Rightarrow> bool) \<Rightarrow> string \<Rightarrow> string list" where
  "repRests greedy lo hi p s =
     (let rs = drop lo (case hi of None \<Rightarrow> runs p s | Some h \<Rightarrow> take (Suc h) (runs p s))
      in if greedy then rev rs else rs)"

fun rmatch :: "regex \<Rightarrow> captures \<times> string \<Rightarrow> (captures \<times> string) list" where
  "rmatch (Lit w) (c, s) = (if startsWith s w then [(c, drop (length w) s)] else [])"
| "rmatch (LitI w) (c, s) =
     (if length w \<le> length s \<and> toLowerCase (take (length w) s) = toLowerCase w
      then [(c, drop (length w) s)] else [])"
| "rmatch (Rep greedy lo hi p) (c, s) = map (Pair c) (repRests greedy lo hi p s)"
| "rmatch (Seq a b) st = concat (map (rmatch b) (rmatch a st))"
| "rmatch (Alt a b) st = rmatch a st @ rmatch b st"
| "rmatch (Opt a) st = rmatch a st @ [st]"
| "rmatch (Group n a) (c, s) =
     map (\<lambda>(c', r). (c'(n \<mapsto> take (length s - length r) s), r)) (rmatch a (c, s))"
| "rmatch Eos (c, s) = (if s = [] then [(c, s)] else [])"

text \<open>\<open>str.match(re)\<close> for an expression that starts with \<open>^\<close>: the captures, or null.\<close>

definition matchStart :: "regex \<Rightarrow> string \<Rightarrow> captures option" where
  "matchStart r s = (case rmatch r (Map.empty, s) of [] \<Rightarrow> None | (c, _) # _ \<Rightarrow> Some c)"

text \<open>The rest of the input after the match of \<open>r\<close> that starts exactly here, if any.\<close>

definition matchAt :: "regex \<Rightarrow> string \<Rightarrow> string option" where
  "matchAt r s = (case rmatch r (Map.empty, s) of [] \<Rightarrow> None | (_, rest) # _ \<Rightarrow> Some rest)"

text \<open>
  \<open>str.split(re)\<close> for an expression without capture groups. \<open>acc\<close> holds, reversed,
  the characters of the current piece; the second argument is the input from the position
  where the next match is tried. An empty match at the start of a piece only advances.
\<close>

function splitLoop :: "regex \<Rightarrow> string \<Rightarrow> string \<Rightarrow> string list" where
  "splitLoop r acc [] = [rev acc]"
| "splitLoop r acc (c # cs) =
     (case matchAt r (c # cs) of
        None \<Rightarrow> splitLoop r (c # acc) cs
      | Some rest \<Rightarrow>
          if length rest < length (c # cs) then rev acc # splitLoop r [] rest
          else if acc = [] then splitLoop r [c] cs
          else rev acc # splitLoop r [] (c # cs))"
  by pat_completeness auto
termination
  by (relation "measure (\<lambda>(r, acc, s). 2 * length s + (if acc = [] then 0 else 1))") auto

definition jsSplit :: "regex \<Rightarrow> string \<Rightarrow> string list" where
  "jsSplit r s =
     (if s = [] then (case matchAt r [] of None \<Rightarrow> [[]] | Some _ \<Rightarrow> [])
      else splitLoop r [] s)"

section \<open>Constants and tokenizer (constants.js)\<close>

definition SHORT_TOKEN_WHITELIST :: "string list" where
  "SHORT_TOKEN_WHITELIST = [''ac'', ''tv'', ''ir'', ''fan'', ''led'', ''pir'']"

definition STOP_WORDS :: "string list" where
  "STOP_WORDS =
     [''the'', ''and'', ''for'', ''are'', ''but'', ''not'', ''you'', ''all'', ''can'', ''her'',
      ''was'', ''one'', ''our'', ''out'', ''has'', ''get'', ''set'', ''its'', ''how'', ''did'',
      ''let'', ''say'', ''she'', ''too'', ''use'', ''way'', ''who'', ''may'', ''any'', ''new'',
      ''now'', ''old'', ''see'', ''also'', ''back'', ''been'', ''call'', ''come'', ''each'',
      ''find'', ''from'', ''give'', ''have'', ''here'', ''just'', ''know'', ''like'', ''look'',
      ''make'', ''many'', ''more'', ''most'', ''much'', ''must'', ''name'', ''only'', ''over'',
      ''show'', ''some'', ''take'', ''tell'', ''than'', ''that'', ''them'', ''then'', ''they'',
      ''this'', ''time'', ''turn'', ''very'', ''want'', ''well'', ''went'', ''what'', ''when'',
      ''will'', ''with'', ''would'', ''about'', ''after'', ''could'', ''every'', ''first'',
      ''found'', ''great'', ''where'', ''which'', ''their'', ''there'', ''these'', ''thing'',
      ''think'', ''those'', ''being'', ''other'', ''should'', ''please'', ''switch'']"

text \<open>The expression \<open>/[^a-z0-9]+/\<close>.\<close>

definition nonAlnumRun :: regex where
  "nonAlnumRun = Rep True 1 None (\<lambda>c. \<not> isLowerAlnum c)"

definition tokenizeForMatch :: "string \<Rightarrow> string list" where
  "tokenizeForMatch text =
     filter (\<lambda>token. token \<noteq> [] \<and> (3 \<le> length token \<or> token \<in> set SHORT_TOKEN_WHITELIST))
       (jsSplit nonAlnumRun (toLowerCase text))"

section \<open>Conjunction splitter (resolver.js)\<close>

text \<open>The expression \<open>/(?:\s*,\s*(?:and\s+)?|\s+and\s+|\s*&\s*)/i\<close>.\<close>

definition conjunctionRe :: regex where
  "conjunctionRe =
     Alt (Seq (Rep True 0 None isSpace)
           (Seq (Lit '','')
             (Seq (Rep True 0 None isSpace)
               (Opt (Seq (LitI ''and'') (Rep True 1 None isSpace))))))
      (Alt (Seq (Rep True 1 None isSpace) (Seq (LitI ''and'') (Rep True 1 None isSpace)))
           (Seq (Rep True 0 None isSpace) (Seq (LitI ''&'') (Rep True 0 None isSpace))))"

definition splitConjunctionTargets :: "string \<Rightarrow> string list" where
  "splitConjunctionTargets text =
     filter (\<lambda>s. s \<noteq> []) (map trim (jsSplit conjunctionRe text))"

section \<open>Registry snapshot (haContext.js)\<close>

text \<open>
  An entity as \<open>mapEntityFromState\<close> builds it and as the search index projects it
  (the opaque \<open>attributes\<close> are left out: the resolver never reads them). \<open>area\<close> is
  \<open>None\<close> where the source has \<open>null\<close>.
\<close>

record entity =
  entity_id :: string
  domain :: string
  name :: string
  area :: "string option"
  state :: string
  supportsBrightness :: bool
  normalized :: string

text \<open>
  The fields of the module-level \<open>haContext\<close> object that the resolver reads. They are
  independent fields, as in the source; \<open>rebuildIndexes\<close> below derives the last two.
\<close>

record haContext =
  entities :: "entity list"
  searchIndex :: "entity list"
  entityMap :: "string \<Rightarrow> entity option"
  tokenIdf :: "string \<Rightarrow> real option"

definition getEntityById :: "haContext \<Rightarrow> string \<Rightarrow> entity option" where
  "getEntityById h entityId = entityMap h entityId"

text \<open>
  \<open>buildTokenIdf\<close>: the first loop counts, for every token, the index entries whose
  token set holds it; the second maps each count to its clamped weight. \<open>Math.log2\<close> is
  the real logarithm to base 2.
\<close>

definition countToken :: "(string \<Rightarrow> nat option) \<Rightarrow> string \<Rightarrow> (string \<Rightarrow> nat option)" where
  "countToken tokenEntityCount token =
     tokenEntityCount(token \<mapsto> (case tokenEntityCount token of None \<Rightarrow> 0 | Some n \<Rightarrow> n) + 1)"

definition countEntity :: "(string \<Rightarrow> nat option) \<Rightarrow> entity \<Rightarrow> (string \<Rightarrow> nat option)" where
  "countEntity tokenEntityCount e =
     foldl countToken tokenEntityCount (remdups (tokenizeForMatch (normalized e)))"

definition idfWeight :: "nat \<Rightarrow> nat \<Rightarrow> real" where
  "idfWeight totalEntities cnt =
     max (1 / 2) (min (log 2 (real totalEntities / real cnt)) 10)"

definition buildTokenIdf :: "entity list \<Rightarrow> (string \<Rightarrow> real option)" where
  "buildTokenIdf index =
     (let tokenEntityCount = foldl countEntity Map.empty index;
          totalEntities = (if length index = 0 then 1 else length index)
      in (\<lambda>token. map_option (idfWeight totalEntities) (tokenEntityCount token)))"

text \<open>
  \<open>rebuildIndexes\<close>: the entity map (a later entity with the same id replaces an earlier
  one, as \<open>new Map\<close> does) and the weights; the area index is not read by the resolver.
\<close>

definition rebuildIndexes :: "entity list \<Rightarrow> entity list \<Rightarrow> haContext" where
  "rebuildIndexes ents index =
     \<lparr>entities = ents, searchIndex = index,
      entityMap = map_of (rev (map (\<lambda>e. (entity_id e, e)) ents)),
      tokenIdf = buildTokenIdf index\<rparr>"

section \<open>Multi-signal entity scorer (resolver.js)\<close>

fun splitChar :: "char \<Rightarrow> string \<Rightarrow> string list" where
  "splitChar d [] = [[]]"
| "splitChar d (c # cs) =
     (if c = d then [] # splitChar d cs
      else (case splitChar d cs of [] \<Rightarrow> [[c]] | p # ps \<Rightarrow> (c # p) # ps))"

text \<open>\<open>s.replace(/_/g, " ")\<close> and \<open>s.replace(/\s+/g, " ")\<close>.\<close>

definition underscoresToSpaces :: "string \<Rightarrow> string" where
  "underscoresToSpaces s = map (\<lambda>c. if c = CHR ''_'' then CHR '' '' else c) s"

function collapseSpaces :: "string \<Rightarrow> string" where
  "collapseSpaces [] = []"
| "collapseSpaces (c # cs) =
     (if isSpace c then CHR '' '' # collapseSpaces (dropWhile isSpace cs)
      else c # collapseSpaces cs)"
  by pat_completeness auto
termination
  by (relation "measure length") (auto simp: less_Suc_eq_le length_dropWhile_le)

text \<open>The local variables the token loop of \<open>scoreEntity\<close> updates.\<close>

record scoring =
  scoreAcc :: real
  consecutiveNameMatches :: nat
  maxConsecutive :: nat
  nameMatchCount :: nat

text \<open>\<open>tokenIdf?.get(token) || 1\<close>: a missing (or zero) weight counts as 1.\<close>

definition tokenWeight :: "(string \<Rightarrow> real option) \<Rightarrow> string \<Rightarrow> real" where
  "tokenWeight idfTable token =
     (case idfTable token of None \<Rightarrow> 1 | Some w \<Rightarrow> if w = 0 then 1 else w)"

definition scoreToken ::
  "string list \<Rightarrow> string list \<Rightarrow> string list \<Rightarrow> (string \<Rightarrow> real option) \<Rightarrow> scoring \<Rightarrow> string \<Rightarrow> scoring" where
  "scoreToken nameTokens idTokens areaTokens idfTable st token =
     (let idf = tokenWeight idfTable token;
          inName = (token \<in> set nameTokens);
          inId = (token \<in> set idTokens);
          inArea = (token \<in> set areaTokens);
          st1 = (if inArea then st\<lparr>scoreAcc := scoreAcc st + 5 * idf\<rparr> else st)
      in if inName
         then st1\<lparr>scoreAcc := scoreAcc st1 + 3 * idf,
                  nameMatchCount := nameMatchCount st1 + 1,
                  consecutiveNameMatches := consecutiveNameMatches st1 + 1,
                  maxConsecutive := max (maxConsecutive st1) (consecutiveNameMatches st1 + 1)\<rparr>
         else (let st2 = st1\<lparr>consecutiveNameMatches := 0\<rparr>
               in if inId then st2\<lparr>scoreAcc := scoreAcc st2 + 1 * idf\<rparr> else st2))"

text \<open>Signal 8, the completeness bonus, from the two counters it reads.\<close>

definition completenessBonus :: "nat \<Rightarrow> nat \<Rightarrow> real" where
  "completenessBonus nameTokenCount matchCount =
     (if 0 < nameTokenCount \<and> 0 < matchCount
      then (real matchCount / real nameTokenCount) * 5 else 0)"

text \<open>The state of the token loop when it ends, after signals 1 and 2.\<close>

definition scoreLoop :: "entity \<Rightarrow> string list \<Rightarrow> (string \<Rightarrow> real option) \<Rightarrow> scoring" where
  "scoreLoop e tokens idfTable =
     (let friendlyName = toLowerCase (name e);
          entityIdSuffix =
            underscoresToSpaces (joinWith ''.'' (drop 1 (splitChar (CHR ''.'') (entity_id e))));
          areaLower = toLowerCase (case area e of None \<Rightarrow> [] | Some a \<Rightarrow> a);
          queryJoined = joinWith '' '' tokens;
          s1 = (if friendlyName = queryJoined then 100 else 0);
          s2 = s1 + (if entityIdSuffix = collapseSpaces queryJoined then 80 else 0);
          nameTokens = tokenizeForMatch friendlyName;
          idTokens = tokenizeForMatch (entity_id e);
          areaTokens = tokenizeForMatch areaLower
      in foldl (scoreToken nameTokens idTokens areaTokens idfTable)
           \<lparr>scoreAcc = s2, consecutiveNameMatches = 0, maxConsecutive = 0, nameMatchCount = 0\<rparr>
           tokens)"

definition scoreEntity ::
  "entity \<Rightarrow> string list \<Rightarrow> string list \<Rightarrow> (string \<Rightarrow> real option) \<Rightarrow> real" where
  "scoreEntity e tokens preferred idfTable =
     (let st = scoreLoop e tokens idfTable;
          s6 = scoreAcc st
                 + (if 2 \<le> maxConsecutive st then real (maxConsecutive st) * 2 else 0);
          s7 = s6 + (if domain e \<in> set preferred then 2 else 0)
      in s7 + completenessBonus (length (tokenizeForMatch (toLowerCase (name e))))
                (nameMatchCount st))"

section \<open>Candidate search\<close>

record candidate =
  ent :: entity
  score :: real

text \<open>
  The resolver's ambient state: the alias table \<open>loadAliases()\<close> returns, the registry
  snapshot, and the host's \<open>String.prototype.localeCompare\<close>, whose order depends on the
  locale of the JavaScript engine and is therefore a parameter.
\<close>

record resolverEnv =
  aliasTable :: "string \<Rightarrow> string option"
  ctx :: haContext
  localeCompare :: "string \<Rightarrow> string \<Rightarrow> int"

text \<open>The comparator \<open>(a, b) => b.score - a.score || a.name.localeCompare(b.name)\<close>.\<close>

definition candidateCompare :: "(string \<Rightarrow> string \<Rightarrow> int) \<Rightarrow> candidate \<Rightarrow> candidate \<Rightarrow> real" where
  "candidateCompare lc a b =
     (if score b - score a \<noteq> 0 then score b - score a
      else real_of_int (lc (name (ent a)) (name (ent b))))"

text \<open>
  \<open>Array.prototype.sort\<close> is stable; it is modelled as the stable insertion sort, which
  puts \<open>x\<close> in front of the first \<open>y\<close> with \<open>cmp x y \<le> 0\<close>.
\<close>

fun insertSorted :: "('a \<Rightarrow> 'a \<Rightarrow> real) \<Rightarrow> 'a \<Rightarrow> 'a list \<Rightarrow> 'a list" where
  "insertSorted cmp x [] = [x]"
| "insertSorted cmp x (y # ys) =
     (if cmp x y \<le> 0 then x # y # ys else y # insertSorted cmp x ys)"

definition jsSort :: "('a \<Rightarrow> 'a \<Rightarrow> real) \<Rightarrow> 'a list \<Rightarrow> 'a list" where
  "jsSort cmp xs = foldr (insertSorted cmp) xs []"

text \<open>The de-duplicating loop: \<open>unique\<close> grows until it holds \<open>limit\<close> items.\<close>

fun uniqueLoop :: "nat \<Rightarrow> string set \<Rightarrow> candidate list \<Rightarrow> candidate list \<Rightarrow> candidate list" where
  "uniqueLoop limit seen unique [] = unique"
| "uniqueLoop limit seen unique (item # rest) =
     (if entity_id (ent item) \<in> seen then uniqueLoop limit seen unique rest
      else if limit \<le> length (unique @ [item]) then unique @ [item]
      else uniqueLoop limit (insert (entity_id (ent item)) seen) (unique @ [item]) rest)"

definition queryTokens :: "string \<Rightarrow> string list" where
  "queryTokens text = filter (\<lambda>t. t \<notin> set STOP_WORDS) (tokenizeForMatch text)"

definition scoredCandidates :: "resolverEnv \<Rightarrow> string list \<Rightarrow> string list \<Rightarrow> candidate list" where
  "scoredCandidates env tokens preferred =
     jsSort (candidateCompare (localeCompare env))
       (filter (\<lambda>entry. 0 < score entry)
         (map (\<lambda>e. \<lparr>ent = e, score = scoreEntity e tokens preferred (tokenIdf (ctx env))\<rparr>)
           (searchIndex (ctx env))))"

definition fallbackCandidates :: "resolverEnv \<Rightarrow> string \<Rightarrow> nat \<Rightarrow> candidate list" where
  "fallbackCandidates env token limit =
     map (\<lambda>e. \<lparr>ent = e, score = 1 / 2\<rparr>)
       (take limit (filter (\<lambda>e. includesStr (entity_id e) token) (searchIndex (ctx env))))"

definition findEntityCandidates :: "resolverEnv \<Rightarrow> string \<Rightarrow> nat \<Rightarrow> string list \<Rightarrow> candidate list" where
  "findEntityCandidates env text limit preferred =
     (if text = [] \<or> searchIndex (ctx env) = [] then []
      else let tokens = queryTokens text in
        if tokens = [] then []
        else let unique = uniqueLoop limit {} [] (scoredCandidates env tokens preferred) in
          if unique = [] \<and> length tokens = 1 then fallbackCandidates env (hd tokens) limit
          else unique)"

section \<open>Alias table and entity selection\<close>

text \<open>
  \<open>resolveAlias\<close>: \<open>aliases.get(normalized) || null\<close> yields null for a missing phrase and
  for a phrase mapped to the empty string.
\<close>

definition resolveAlias :: "resolverEnv \<Rightarrow> string \<Rightarrow> string option" where
  "resolveAlias env text =
     (let normalizedText = trim (toLowerCase text) in
      if normalizedText = [] then None
      else (case aliasTable env normalizedText of
              None \<Rightarrow> None
            | Some v \<Rightarrow> if v = [] then None else Some v))"

record selectOptions =
  opt_preferredDomains :: "string list"
  opt_limit :: "nat option"
  opt_minScore :: "real option"

definition selectEntityId :: "resolverEnv \<Rightarrow> string \<Rightarrow> selectOptions \<Rightarrow> string option" where
  "selectEntityId env text opts =
     (case resolveAlias env text of
        Some alias \<Rightarrow> Some alias
      | None \<Rightarrow>
          (case findEntityCandidates env text
                  (case opt_limit opts of None \<Rightarrow> 5 | Some n \<Rightarrow> if n = 0 then 5 else n)
                  (opt_preferredDomains opts) of
             [] \<Rightarrow> None
           | best # _ \<Rightarrow>
               if (case opt_minScore opts of None \<Rightarrow> 1 | Some m \<Rightarrow> if m = 0 then 1 else m)
                    \<le> score best
               then Some (entity_id (ent best)) else None))"

section \<open>Command detectors\<close>

text \<open>What one pass of a detector's \<open>for\<close> loop does: \<open>continue\<close>, or \<open>return\<close> a value.\<close>

datatype 'a step = Continue | Return 'a

record action =
  service :: string
  act_entity_id :: string
  brightness_pct :: "int option"
  act_name :: string

record intent =
  actions :: "action list"
  successMessage :: string

definition digitChar :: "nat \<Rightarrow> char" where
  "digitChar n = ''0123456789'' ! (n mod 10)"

fun showNat :: "nat \<Rightarrow> string" where
  "showNat n = (if n < 10 then [digitChar n] else showNat (n div 10) @ [digitChar (n mod 10)])"

declare showNat.simps [simp del]

definition showInt :: "int \<Rightarrow> string" where
  "showInt i = (if i < 0 then ''-'' @ showNat (nat (- i)) else showNat (nat i))"

text \<open>
  \<open>parseInt(s, 10)\<close>: leading white space, an optional sign, then the longest run of
  digits; \<open>None\<close> is \<open>NaN\<close>.
\<close>

definition digitValue :: "char \<Rightarrow> nat" where
  "digitValue c = of_char c - 48"

definition parseInt10 :: "string \<Rightarrow> int option" where
  "parseInt10 s =
     (let t = dropWhile isSpace s;
          negative = (t \<noteq> [] \<and> hd t = CHR ''-'');
          u = (if t \<noteq> [] \<and> (hd t = CHR ''-'' \<or> hd t = CHR ''+'') then tl t else t);
          ds = takeWhile isDigit u;
          n = int (foldl (\<lambda>acc c. 10 * acc + digitValue c) 0 ds)
      in if ds = [] then None else Some (if negative then - n else n))"

definition clampPercent :: "int option \<Rightarrow> int option" where
  "clampPercent v =
     (case v of
        None \<Rightarrow> None
      | Some n \<Rightarrow> if n < 0 then Some 0 else if 100 < n then Some 100 else Some n)"

fun dedupeLoop :: "string set \<Rightarrow> entity list \<Rightarrow> entity list" where
  "dedupeLoop seen [] = []"
| "dedupeLoop seen (e # es) =
     (if entity_id e \<in> seen then dedupeLoop seen es
      else e # dedupeLoop (insert (entity_id e) seen) es)"

definition dedupeEntities :: "entity list \<Rightarrow> entity list" where
  "dedupeEntities es = dedupeLoop {} es"

subsection \<open>Brightness\<close>

text \<open>
  The common part \<open>(.+?)\s+to\s+(\d{1,3})(?:\s*%|\s*percent)?$\<close> of the three patterns,
  and the patterns, each anchored at the start of the text.
\<close>

definition brightnessTail :: regex where
  "brightnessTail =
     Seq (Group 1 (Rep False 1 None notLineTerminator))
      (Seq (Rep True 1 None isSpace)
        (Seq (Lit ''to'')
          (Seq (Rep True 1 None isSpace)
            (Seq (Group 2 (Rep True 1 (Some 3) isDigit))
              (Seq (Opt (Alt (Seq (Rep True 0 None isSpace) (Lit ''%''))
                             (Seq (Rep True 0 None isSpace) (Lit ''percent''))))
                Eos)))))"

definition brightnessPatterns :: "regex list" where
  "brightnessPatterns =
     [Seq (Alt (Lit ''set'') (Alt (Lit ''turn'') (Lit ''switch'')))
        (Seq (Rep True 1 None isSpace) brightnessTail),
      Seq (Seq (Lit ''set'')
            (Seq (Rep True 1 None isSpace)
              (Seq (Lit ''brightness'') (Seq (Rep True 1 None isSpace) (Lit ''of'')))))
        (Seq (Rep True 1 None isSpace) brightnessTail),
      Seq (Alt (Lit ''dim'') (Lit ''brighten''))
        (Seq (Rep True 1 None isSpace) brightnessTail)]"

text \<open>\<open>match[n]\<close>; both groups take part in every match of a brightness pattern.\<close>

definition capture :: "captures \<Rightarrow> nat \<Rightarrow> string" where
  "capture c n = (case c n of None \<Rightarrow> [] | Some s \<Rightarrow> s)"

definition pronouns :: "string list" where
  "pronouns = [''it'', ''this'', ''that'', ''them'']"

definition fillerTokens :: "string list" where
  "fillerTokens = [''all'', ''light'', ''lights'', ''lamp'', ''lamps'']"

definition lightOptions :: selectOptions where
  "lightOptions = \<lparr>opt_preferredDomains = [''light''], opt_limit = Some 5, opt_minScore = None\<rparr>"

definition isDimmableLight :: "entity \<Rightarrow> bool" where
  "isDimmableLight e = (domain e = ''light'' \<and> supportsBrightness e)"

text \<open>Group mode: the two \<open>filter\<close> calls over the candidates of the query.\<close>

definition matchesFilterTokens :: "string list \<Rightarrow> entity \<Rightarrow> bool" where
  "matchesFilterTokens filterTokens e =
     (filterTokens = [] \<or>
      list_all (\<lambda>token. includesStr (normalized e) token
                        \<or> includesStr (toLowerCase (entity_id e)) token) filterTokens)"

definition groupCandidates :: "resolverEnv \<Rightarrow> string \<Rightarrow> string list \<Rightarrow> candidate list" where
  "groupCandidates env rawTarget filterTokens =
     (let query = joinWith '' '' filterTokens
      in findEntityCandidates env (if query = [] then rawTarget else query) 50 [''light''])"

definition groupTargets :: "resolverEnv \<Rightarrow> string \<Rightarrow> string list \<Rightarrow> entity list" where
  "groupTargets env rawTarget filterTokens =
     filter (matchesFilterTokens filterTokens)
       (filter isDimmableLight (map ent (groupCandidates env rawTarget filterTokens)))"

text \<open>
  The body of the loop over the segments: the entities it pushes onto \<open>targets\<close> for one
  segment (none or one). \<open>getLast\<close> is \<open>deps.getLastEntityId || getLastEntityId\<close>.
\<close>

definition resolveSegment ::
  "resolverEnv \<Rightarrow> (string \<Rightarrow> string option) \<Rightarrow> string \<Rightarrow> string \<Rightarrow> entity list" where
  "resolveSegment env getLast sender segment =
     (let selected = selectEntityId env segment lightOptions;
          notLight = (case selected of
                        None \<Rightarrow> True
                      | Some i \<Rightarrow> i = [] \<or> (case getEntityById (ctx env) i of
                                                None \<Rightarrow> True
                                              | Some e \<Rightarrow> domain e \<noteq> ''light''));
          lastEntity = (case getLast sender of
                          None \<Rightarrow> None
                        | Some l \<Rightarrow> if l = [] then None else getEntityById (ctx env) l);
          entityId = (if notLight \<and> segment \<in> set pronouns
                      then (case lastEntity of
                              None \<Rightarrow> selected
                            | Some le \<Rightarrow> if domain le = ''light'' then Some (entity_id le)
                                         else selected)
                      else selected)
      in case entityId of
           None \<Rightarrow> map ent (case List.find (\<lambda>item. isDimmableLight (ent item))
                                (findEntityCandidates env segment 5 [''light'']) of
                              None \<Rightarrow> [] | Some fb \<Rightarrow> [fb])
         | Some i \<Rightarrow>
             if i = []
             then map ent (case List.find (\<lambda>item. isDimmableLight (ent item))
                                 (findEntityCandidates env segment 5 [''light'']) of
                             None \<Rightarrow> [] | Some fb \<Rightarrow> [fb])
             else (case getEntityById (ctx env) i of
                     None \<Rightarrow> []
                   | Some e \<Rightarrow> if supportsBrightness e then [e] else []))"

definition segmentTargets ::
  "resolverEnv \<Rightarrow> (string \<Rightarrow> string option) \<Rightarrow> string \<Rightarrow> string list \<Rightarrow> entity list" where
  "segmentTargets env getLast sender segments =
     concat (map (resolveSegment env getLast sender) segments)"

definition brightnessAction :: "int \<Rightarrow> entity \<Rightarrow> action" where
  "brightnessAction v e =
     \<lparr>service = ''light.turn_on'', act_entity_id = entity_id e,
      brightness_pct = Some v, act_name = name e\<rparr>"

definition brightnessIntent :: "bool \<Rightarrow> int \<Rightarrow> entity list \<Rightarrow> intent" where
  "brightnessIntent isAllRequest v dimmableTargets =
     (let summaryName =
            (if isAllRequest
             then showNat (length dimmableTargets) @ '' light''
                    @ (if 1 < length dimmableTargets then ''s'' else [])
             else if 1 < length dimmableTargets then joinWith '', '' (map name dimmableTargets)
             else name (hd dimmableTargets))
      in \<lparr>actions = map (brightnessAction v) dimmableTargets,
          successMessage = summaryName @ '' set to '' @ showInt v @ ''%''\<rparr>)"

text \<open>The body of the loop over the patterns, for a pattern that matched with captures \<open>m\<close>.\<close>

definition rawTargetOf :: "captures \<Rightarrow> string" where
  "rawTargetOf m = trim (capture m 1)"

definition valueOf :: "captures \<Rightarrow> int option" where
  "valueOf m = clampPercent (parseInt10 (capture m 2))"

definition isAllRequest :: "captures \<Rightarrow> bool" where
  "isAllRequest m = (''all'' \<in> set (tokenizeForMatch (rawTargetOf m)))"

definition filterTokensOf :: "captures \<Rightarrow> string list" where
  "filterTokensOf m = filter (\<lambda>token. token \<notin> set fillerTokens) (tokenizeForMatch (rawTargetOf m))"

definition brightnessAttempt ::
  "resolverEnv \<Rightarrow> (string \<Rightarrow> string option) \<Rightarrow> string \<Rightarrow> captures \<Rightarrow> intent option step" where
  "brightnessAttempt env getLast sender m =
     (case valueOf m of
        None \<Rightarrow> Continue
      | Some v \<Rightarrow>
          (let segments = splitConjunctionTargets (rawTargetOf m);
               targets = (if isAllRequest m
                          then groupTargets env (rawTargetOf m) (filterTokensOf m)
                          else segmentTargets env getLast sender segments)
           in if \<not> isAllRequest m \<and> 1 < length segments \<and> length targets < length segments
              then Return None
              else (let dimmableTargets = filter supportsBrightness (dedupeEntities targets)
                    in if dimmableTargets = [] then Continue
                       else Return (Some (brightnessIntent (isAllRequest m) v dimmableTargets)))))"

fun brightnessLoop ::
  "resolverEnv \<Rightarrow> (string \<Rightarrow> string option) \<Rightarrow> string \<Rightarrow> string \<Rightarrow> regex list \<Rightarrow> intent option" where
  "brightnessLoop env getLast sender lowered [] = None"
| "brightnessLoop env getLast sender lowered (p # ps) =
     (case matchStart p lowered of
        None \<Rightarrow> brightnessLoop env getLast sender lowered ps
      | Some m \<Rightarrow>
          (case brightnessAttempt env getLast sender m of
             Continue \<Rightarrow> brightnessLoop env getLast sender lowered ps
           | Return r \<Rightarrow> r))"

definition detectBrightnessCommand ::
  "resolverEnv \<Rightarrow> (string \<Rightarrow> string option) \<Rightarrow> string \<Rightarrow> string \<Rightarrow> intent option" where
  "detectBrightnessCommand env getLast text sender =
     brightnessLoop env getLast sender (trim (toLowerCase text)) brightnessPatterns"

subsection \<open>Direct on/off\<close>

definition directPatterns :: "(string \<times> string) list" where
  "directPatterns =
     [(''turn on '', ''turn_on''), (''turn off '', ''turn_off''),
      (''switch on '', ''turn_on''), (''switch off '', ''turn_off'')]"

definition directOptions :: selectOptions where
  "directOptions =
     \<lparr>opt_preferredDomains = [''light'', ''switch'', ''fan'', ''cover''],
      opt_limit = Some 5, opt_minScore = None\<rparr>"

definition directAction :: "string \<Rightarrow> entity \<Rightarrow> action" where
  "directAction svc e =
     \<lparr>service = domain e @ ''.'' @ svc, act_entity_id = entity_id e,
      brightness_pct = None, act_name = name e\<rparr>"

text \<open>The entity a segment resolves to: the selector's id, looked up in the snapshot.\<close>

definition segmentEntity :: "resolverEnv \<Rightarrow> string \<Rightarrow> entity option" where
  "segmentEntity env segment =
     (case selectEntityId env segment directOptions of
        None \<Rightarrow> None
      | Some i \<Rightarrow> if i = [] then None else getEntityById (ctx env) i)"

definition directActions :: "resolverEnv \<Rightarrow> string \<Rightarrow> string list \<Rightarrow> action list" where
  "directActions env svc segments =
     concat (map (\<lambda>segment. case segmentEntity env segment of
                               None \<Rightarrow> []
                             | Some e \<Rightarrow> [directAction svc e]) segments)"

definition directSegments :: "string \<Rightarrow> string \<Rightarrow> string list" where
  "directSegments trimmed pfx = splitConjunctionTargets (trim (drop (length pfx) trimmed))"

definition directAttempt :: "resolverEnv \<Rightarrow> string \<Rightarrow> string \<times> string \<Rightarrow> intent option step" where
  "directAttempt env trimmed pat =
     (let segments = directSegments trimmed (fst pat);
          acts = directActions env (snd pat) segments
      in if acts = [] then Continue
         else if length acts < length segments then Return None
         else Return (Some \<lparr>actions = acts,
                successMessage =
                  joinWith '', '' (map act_name acts) @ '' ''
                    @ (if snd pat = ''turn_on'' then ''turned on'' else ''turned off'') @ ''.''\<rparr>))"

fun directLoop :: "resolverEnv \<Rightarrow> string \<Rightarrow> (string \<times> string) list \<Rightarrow> intent option" where
  "directLoop env trimmed [] = None"
| "directLoop env trimmed (pat # pats) =
     (if \<not> startsWith (toLowerCase trimmed) (fst pat) then directLoop env trimmed pats
      else (case directAttempt env trimmed pat of
              Continue \<Rightarrow> directLoop env trimmed pats
            | Return r \<Rightarrow> r))"

definition detectDirectAliasCommand :: "resolverEnv \<Rightarrow> string \<Rightarrow> intent option" where
  "detectDirectAliasCommand env text = directLoop env (trim text) directPatterns"

section \<open>Notions the properties are stated with\<close>

text \<open>
  Document frequency as the specification words it: the number of index entries whose
  normalized text holds the token at least once.
\<close>

definition docFreq :: "entity list \<Rightarrow> string \<Rightarrow> nat" where
  "docFreq index token =
     length (filter (\<lambda>e. token \<in> set (tokenizeForMatch (normalized e))) index)"

text \<open>
  The ranking order: a higher score first, and among equal scores the name that the
  comparison puts first.
\<close>

definition rankedBefore :: "(string \<Rightarrow> string \<Rightarrow> int) \<Rightarrow> candidate \<Rightarrow> candidate \<Rightarrow> bool" where
  "rankedBefore lc a b =
     (score b < score a \<or> (score a = score b \<and> lc (name (ent a)) (name (ent b)) \<le> 0))"

text \<open>
  What sorting needs of a name comparison: of two names one is not after the other, and
  ``not after'' is transitive. Every collation a JavaScript engine offers has these.
\<close>

definition consistentCompare :: "(string \<Rightarrow> string \<Rightarrow> int) \<Rightarrow> bool" where
  "consistentCompare lc =
     ((\<forall>a b. lc a b \<le> 0 \<or> lc b a \<le> 0) \<and>
      (\<forall>a b c. lc a b \<le> 0 \<and> lc b c \<le> 0 \<longrightarrow> lc a c \<le> 0))"

text \<open>The capture groups an expression can set.\<close>

fun groupsOf :: "regex \<Rightarrow> nat set" where
  "groupsOf (Seq a b) = groupsOf a \<union> groupsOf b"
| "groupsOf (Alt a b) = groupsOf a \<union> groupsOf b"
| "groupsOf (Opt a) = groupsOf a"
| "groupsOf (Group n a) = insert n (groupsOf a)"
| "groupsOf _ = {}"

text \<open>A count read with \<open>|| 0\<close>.\<close>

definition countOf :: "(string \<Rightarrow> nat option) \<Rightarrow> string \<Rightarrow> nat" where
  "countOf m t = (case m t of None \<Rightarrow> 0 | Some n \<Rightarrow> n)"

text \<open>A capture of one to three decimal digits, and expressions whose every match sets group 2 to one.\<close>

definition digitGroup :: "string \<Rightarrow> bool" where
  "digitGroup d = (d \<noteq> [] \<and> length d \<le> 3 \<and> list_all isDigit d)"

definition yieldsDigits :: "regex \<Rightarrow> bool" where
  "yieldsDigits re =
     (\<forall>c' r st. (c', r) \<in> set (rmatch re st) \<longrightarrow> (\<exists>d. c' 2 = Some d \<and> digitGroup d))"

text \<open>
  Group mode in the words of the specification: a brightness-capable light whose normalized
  text (or lowercased id, which the code also accepts) contains every filter token; and a
  list of actions that holds one \<open>light.turn_on\<close> action with the value \<open>v\<close> for each
  such light among the candidates, and nothing else.
\<close>

definition wantedLight :: "string list \<Rightarrow> entity \<Rightarrow> bool" where
  "wantedLight ft e =
     (domain e = ''light'' \<and> supportsBrightness e
      \<and> list_all (\<lambda>t. includesStr (normalized e) t
                       \<or> includesStr (toLowerCase (entity_id e)) t) ft)"

definition oneActionPerLight :: "candidate list \<Rightarrow> string list \<Rightarrow> int \<Rightarrow> action list \<Rightarrow> bool" where
  "oneActionPerLight cands ft v acts =
     (list_all (\<lambda>a. service a = ''light.turn_on'' \<and> brightness_pct a = Some v
                  \<and> list_ex (\<lambda>c. wantedLight ft (ent c)
                                  \<and> act_entity_id a = entity_id (ent c)) cands) acts
      \<and> list_all (\<lambda>c. \<not> wantedLight ft (ent c)
                    \<or> list_ex (\<lambda>a. act_entity_id a = entity_id (ent c)) acts) cands
      \<and> distinct (map act_entity_id acts))"

section \<open>Example registries\<close>

text \<open>Comparison of names by character code, one possible \<open>localeCompare\<close>.\<close>

fun codeUnitCompare :: "string \<Rightarrow> string \<Rightarrow> int" where
  "codeUnitCompare [] [] = 0"
| "codeUnitCompare [] (b # y) = - 1"
| "codeUnitCompare (a # x) [] = 1"
| "codeUnitCompare (a # x) (b # y) =
     (if (of_char a :: nat) < of_char b then - 1
      else if (of_char b :: nat) < of_char a then 1
      else codeUnitCompare x y)"

text \<open>An entity with the \<open>normalized\<close> text \<open>mapEntityFromState\<close> gives it.\<close>

definition mkEntity :: "string \<Rightarrow> string \<Rightarrow> string \<Rightarrow> string option \<Rightarrow> bool \<Rightarrow> entity" where
  "mkEntity i d n a b =
     \<lparr>entity_id = i, domain = d, name = n, area = a, state = ''on'', supportsBrightness = b,
      normalized =
        toLowerCase (joinWith '' '' ([n, i] @ (case a of None \<Rightarrow> [] | Some x \<Rightarrow> [x]) @ [d]))\<rparr>"

definition snapshotOf :: "entity list \<Rightarrow> (string \<Rightarrow> real option) \<Rightarrow> haContext" where
  "snapshotOf ents idf =
     \<lparr>entities = ents, searchIndex = ents,
      entityMap = map_of (rev (map (\<lambda>e. (entity_id e, e)) ents)), tokenIdf = idf\<rparr>"

text \<open>Scenario B of the specification, with the whiskey light of scenario A.\<close>

definition livingRoom :: "entity list" where
  "livingRoom =
     [mkEntity ''light.couch'' ''light'' ''Couch Lamp'' None True,
      mkEntity ''light.the_wall'' ''light'' ''Wall Lamp'' None True,
      mkEntity ''light.whiskey'' ''light'' ''Whiskey'' None True]"

definition livingRoomEnv :: resolverEnv where
  "livingRoomEnv =
     \<lparr>aliasTable = [''couch'' \<mapsto> ''light.couch'', ''the wall'' \<mapsto> ''light.the_wall''],
      ctx = snapshotOf livingRoom Map.empty,
      localeCompare = codeUnitCompare\<rparr>"

text \<open>An alias table with an empty phrase, an empty target and a target that is not registered.\<close>

definition oddAliasEnv :: resolverEnv where
  "oddAliasEnv =
     \<lparr>aliasTable = ['''' \<mapsto> ''light.whiskey'', ''nowhere'' \<mapsto> '''', ''ghost'' \<mapsto> ''light.ghost''],
      ctx = snapshotOf livingRoom Map.empty,
      localeCompare = codeUnitCompare\<rparr>"

text \<open>Two kitchen lights whose ids, but not their names, hold the letters \<open>kit\<close>.\<close>

definition kitchen :: "entity list" where
  "kitchen =
     [mkEntity ''light.kitchen_b'' ''light'' ''Zed'' None True,
      mkEntity ''light.kitchen_a'' ''light'' ''Abe'' None True]"

definition kitchenEnv :: resolverEnv where
  "kitchenEnv =
     \<lparr>aliasTable = Map.empty, ctx = snapshotOf kitchen Map.empty,
      localeCompare = codeUnitCompare\<rparr>"

definition noOptions :: selectOptions where
  "noOptions = \<lparr>opt_preferredDomains = [], opt_limit = None, opt_minScore = None\<rparr>"

definition noLastEntity :: "string \<Rightarrow> string option" where
  "noLastEntity sender = None"

definition kitchenLight :: entity where
  "kitchenLight = mkEntity ''light.kitchen'' ''light'' ''Kitchen'' None True"

definition twoLights :: "entity list" where
  "twoLights = [mkEntity ''light.whiskey'' ''light'' ''Whiskey'' None True, mkEntity ''light.kitchen'' ''light'' ''Kitchen'' None True]"


text \<open>A dimmable light beside a heater switch; only the couch has an alias.\<close>

definition mixedEnv :: resolverEnv where
  "mixedEnv =
     \<lparr>aliasTable = [''couch'' \<mapsto> ''light.couch''],
      ctx = snapshotOf
              [mkEntity ''light.couch'' ''light'' ''Couch Lamp'' None True,
               mkEntity ''switch.heater'' ''switch'' ''Heater'' None False]
              Map.empty,
      localeCompare = codeUnitCompare\<rparr>"

text \<open>Scenario D: three dimmable kitchen lights and a kitchen switch.\<close>

definition scenarioD :: "entity list" where
  "scenarioD =
     [mkEntity ''light.counter'' ''light'' ''Counter'' (Some ''kitchen'') True,
      mkEntity ''light.island'' ''light'' ''Island'' (Some ''kitchen'') True,
      mkEntity ''light.sink'' ''light'' ''Sink'' (Some ''kitchen'') True,
      mkEntity ''switch.kettle'' ''switch'' ''Kettle'' (Some ''kitchen'') False]"

definition scenarioDEnv :: resolverEnv where
  "scenarioDEnv =
     \<lparr>aliasTable = Map.empty, ctx = snapshotOf scenarioD Map.empty,
      localeCompare = codeUnitCompare\<rparr>"

text \<open>A registry without any entity of a preferred domain.\<close>

definition sensorEnv :: resolverEnv where
  "sensorEnv =
     \<lparr>aliasTable = Map.empty,
      ctx = snapshotOf [mkEntity ''sensor.couch'' ''sensor'' ''Couch Sensor'' None False] Map.empty,
      localeCompare = codeUnitCompare\<rparr>"

section \<open>Alias precedence\<close>

lemma resolveAlias_hit:
  assumes "trim (toLowerCase text) \<noteq> []"
    and "aliasTable env (trim (toLowerCase text)) = Some v"
    and "v \<noteq> []"
  shows "resolveAlias env text = Some v"
  using assms by (simp add: resolveAlias_def Let_def)

text \<open>
  C1 (as amended). For every text whose lowercased, trimmed form is not empty: if the alias
  table maps that form to a non-empty entity id, \<open>selectEntityId\<close> returns that id, whatever
  the registry holds, whatever candidate search would rank first and whatever the options.
\<close>

theorem selectEntityId_alias_precedence:
  assumes "trim (toLowerCase text) \<noteq> []"
    and "aliasTable env (trim (toLowerCase text)) = Some v"
    and "v \<noteq> []"
  shows "selectEntityId env text opts = Some v"
  using resolveAlias_hit [OF assms] by (simp add: selectEntityId_def)

theorem selectEntityId_alias_precedence_witness:
  "selectEntityId livingRoomEnv ''  The Wall '' noOptions = Some ''light.the_wall''"
proof -
  have n: "trim (toLowerCase ''  The Wall '') = ''the wall''"
    by code_simp
  have a: "aliasTable livingRoomEnv (trim (toLowerCase ''  The Wall '')) = Some ''light.the_wall''"
    unfolding n by (simp add: livingRoomEnv_def)
  show ?thesis
    using selectEntityId_alias_precedence [OF _ a, of noOptions] n by simp
qed

text \<open>
  The claim as stated fails where the guard \<open>if (!normalized) return null\<close> or the
  \<open>|| null\<close> of \<open>resolveAlias\<close> applies: the table maps the empty phrase to
  \<open>light.whiskey\<close>, and the blank text is resolved to nothing; it maps \<open>nowhere\<close> to the
  empty string, and that is not returned either.
\<close>

theorem selectEntityId_alias_counterexample:
  "aliasTable oddAliasEnv (trim (toLowerCase ''  '')) = Some ''light.whiskey''
   \<and> selectEntityId oddAliasEnv ''  '' noOptions = None
   \<and> aliasTable oddAliasEnv (trim (toLowerCase ''nowhere'')) = Some ''''
   \<and> selectEntityId oddAliasEnv ''nowhere'' noOptions = None"
  by code_simp

text \<open>
  C10. The alias path makes no existence check: there are an alias table, a snapshot and a
  phrase such that the table maps the phrase to an id, \<open>selectEntityId\<close> returns that id
  under all options, and \<open>getEntityById\<close> finds no entity with it.
\<close>

theorem alias_target_need_not_exist:
  "\<exists>env phrase i.
     aliasTable env (trim (toLowerCase phrase)) = Some i
     \<and> (\<forall>opts. selectEntityId env phrase opts = Some i)
     \<and> getEntityById (ctx env) i = None"
proof (intro exI conjI allI)
  show "aliasTable oddAliasEnv (trim (toLowerCase ''ghost'')) = Some ''light.ghost''"
    by code_simp
  show "getEntityById (ctx oddAliasEnv) ''light.ghost'' = None"
    by code_simp
  show "selectEntityId oddAliasEnv ''ghost'' opts = Some ''light.ghost''" for opts
  proof -
    have "resolveAlias oddAliasEnv ''ghost'' = Some ''light.ghost''"
      by code_simp
    then show ?thesis by (simp add: selectEntityId_def)
  qed
qed

section \<open>Single-token fallback\<close>

lemma includesStr_iff: "includesStr s t \<longleftrightarrow> (\<exists>pre post. s = pre @ t @ post)"
proof (induction s)
  case Nil
  then show ?case by auto
next
  case (Cons c cs)
  have "startsWith (c # cs) t \<longleftrightarrow> (\<exists>post. c # cs = t @ post)"
    unfolding startsWith_def by (metis append_eq_conv_conj)
  moreover have "(\<exists>pre post. c # cs = pre @ t @ post)
      \<longleftrightarrow> (\<exists>post. c # cs = t @ post) \<or> (\<exists>pre post. cs = pre @ t @ post)"
  proof
    assume "\<exists>pre post. c # cs = pre @ t @ post"
    then obtain pre post where e: "c # cs = pre @ t @ post" by blast
    show "(\<exists>post. c # cs = t @ post) \<or> (\<exists>pre post. cs = pre @ t @ post)"
    proof (cases pre)
      case Nil
      with e show ?thesis by auto
    next
      case (Cons a pre')
      with e have "cs = pre' @ t @ post" by simp
      then show ?thesis by blast
    qed
  next
    assume "(\<exists>post. c # cs = t @ post) \<or> (\<exists>pre post. cs = pre @ t @ post)"
    then show "\<exists>pre post. c # cs = pre @ t @ post"
    proof
      assume "\<exists>post. c # cs = t @ post"
      then obtain post where "c # cs = [] @ t @ post" by auto
      then show ?thesis by blast
    next
      assume "\<exists>pre post. cs = pre @ t @ post"
      then obtain pre post where "cs = pre @ t @ post" by blast
      then have "c # cs = (c # pre) @ t @ post" by simp
      then show ?thesis by blast
    qed
  qed
  ultimately show ?case using Cons.IH by simp
qed

lemma queryTokens_Nil: "queryTokens [] = []"
  by (simp add: queryTokens_def tokenizeForMatch_def jsSplit_def toLowerCase_def split: option.splits)

lemma findEntityCandidates_fallback:
  assumes "queryTokens text = [t]" and "scoredCandidates env [t] preferred = []"
  shows "findEntityCandidates env text limit preferred = fallbackCandidates env t limit"
proof -
  have "text \<noteq> []" using assms(1) queryTokens_Nil by auto
  then show ?thesis
    using assms by (auto simp: findEntityCandidates_def fallbackCandidates_def Let_def)
qed

text \<open>
  C9. When exactly one token \<open>t\<close> survives tokenization and stop-word filtering and no
  entity has a positive score, \<open>findEntityCandidates\<close> returns the index entries whose
  \<open>entity_id\<close> has \<open>t\<close> as a substring, in index order, each with score 0.5, cut to the
  first \<open>limit\<close> of them.
\<close>

theorem fallback_substring:
  assumes "queryTokens text = [t]" and "scoredCandidates env [t] preferred = []"
  shows "findEntityCandidates env text limit preferred =
           map (\<lambda>e. \<lparr>ent = e, score = 1 / 2\<rparr>)
             (take limit (filter (\<lambda>e. \<exists>pre post. entity_id e = pre @ t @ post)
                            (searchIndex (ctx env))))"
  using findEntityCandidates_fallback [OF assms]
  by (simp add: fallbackCandidates_def includesStr_iff)

theorem fallback_substring_witness:
  "findEntityCandidates kitchenEnv ''the kit'' 1 [] =
     [\<lparr>ent = mkEntity ''light.kitchen_b'' ''light'' ''Zed'' None True, score = 1 / 2\<rparr>]"
proof -
  have q: "queryTokens ''the kit'' = [''kit'']" by code_simp
  have s: "scoredCandidates kitchenEnv [''kit''] [] = []" by code_simp
  have f: "filter (\<lambda>e. \<exists>pre post. entity_id e = pre @ ''kit'' @ post) (searchIndex (ctx kitchenEnv))
      = kitchen"
    unfolding includesStr_iff [symmetric] by code_simp
  show ?thesis
    using fallback_substring [OF q s, of 1] unfolding f by (simp add: kitchen_def)
qed

section \<open>Completeness bonus\<close>

text \<open>
  C6, at the input where the code leaves the claim. The name \<open>Kitchen\<close> has one token; the
  query \<open>kitchen kitchen\<close> hits it twice, the loop counts two name matches, and the
  completeness bonus is \<open>2 / 1 * 5 = 10\<close>, above the 5 that the scorer's own comment
  (``up to +5'') and the claim give as its maximum. The score is 3 + 3 for the name
  matches, 4 for the run of two and 10 for completeness.
\<close>

theorem completeness_above_five:
  "length (tokenizeForMatch (toLowerCase (name kitchenLight))) = 1
   \<and> nameMatchCount (scoreLoop kitchenLight [''kitchen'', ''kitchen''] Map.empty) = 2
   \<and> completenessBonus 1 2 = 10
   \<and> scoreEntity kitchenLight (queryTokens ''kitchen kitchen'') [] Map.empty = 20"
  by code_simp

section \<open>Ranking and de-duplication of candidates\<close>

lemma candidateCompare_le: "candidateCompare lc a b \<le> 0 \<longleftrightarrow> rankedBefore lc a b"
  by (auto simp: candidateCompare_def rankedBefore_def)

lemma set_insertSorted: "set (insertSorted cmp x xs) = insert x (set xs)"
  by (induction xs) auto

lemma set_jsSort: "set (jsSort cmp xs) = set xs"
  unfolding jsSort_def by (induction xs) (auto simp: set_insertSorted)

lemma rankedBefore_total:
  assumes "consistentCompare lc" and "\<not> rankedBefore lc a b"
  shows "rankedBefore lc b a"
  using assms unfolding consistentCompare_def rankedBefore_def
  by (metis linorder_less_linear)

lemma rankedBefore_trans:
  assumes "consistentCompare lc" and "rankedBefore lc a b" and "rankedBefore lc b c"
  shows "rankedBefore lc a c"
proof -
  from assms(1) have tr: "\<And>x y z. lc x y \<le> 0 \<Longrightarrow> lc y z \<le> 0 \<Longrightarrow> lc x z \<le> 0"
    unfolding consistentCompare_def by blast
  show ?thesis
    using assms(2,3) tr [of "name (ent a)" "name (ent b)" "name (ent c)"]
    unfolding rankedBefore_def by auto
qed

lemma sorted_insertSorted:
  assumes "consistentCompare lc" and "sorted_wrt (rankedBefore lc) xs"
  shows "sorted_wrt (rankedBefore lc) (insertSorted (candidateCompare lc) x xs)"
  using assms(2)
proof (induction xs)
  case Nil
  then show ?case by simp
next
  case (Cons y ys)
  show ?case
  proof (cases "rankedBefore lc x y")
    case True
    then have "\<forall>z\<in>set ys. rankedBefore lc x z"
      using Cons.prems rankedBefore_trans [OF assms(1)] by auto
    with True Cons.prems show ?thesis by (simp add: candidateCompare_le)
  next
    case False
    then have "rankedBefore lc y x" by (rule rankedBefore_total [OF assms(1)])
    with False Cons show ?thesis
      by (auto simp: candidateCompare_le set_insertSorted)
  qed
qed

lemma sorted_jsSort:
  assumes "consistentCompare lc"
  shows "sorted_wrt (rankedBefore lc) (jsSort (candidateCompare lc) xs)"
  unfolding jsSort_def by (induction xs) (auto intro: sorted_insertSorted [OF assms])

lemma uniqueLoop_set:
  "set (uniqueLoop limit seen unique items) \<subseteq> set unique \<union> set items"
proof (induction items arbitrary: seen unique)
  case Nil
  then show ?case by simp
next
  case (Cons item rest)
  have a: "set (uniqueLoop limit seen unique rest) \<subseteq> set unique \<union> set (item # rest)"
    using Cons.IH [of seen unique] by auto
  have b: "set (uniqueLoop limit (insert (entity_id (ent item)) seen) (unique @ [item]) rest)
             \<subseteq> set unique \<union> set (item # rest)"
    using Cons.IH [of "insert (entity_id (ent item)) seen" "unique @ [item]"] by auto
  show ?case using a b by auto
qed

lemma uniqueLoop_sorted:
  "sorted_wrt R (unique @ items) \<Longrightarrow> sorted_wrt R (uniqueLoop limit seen unique items)"
proof (induction items arbitrary: seen unique)
  case Nil
  then show ?case by simp
next
  case (Cons item rest)
  from Cons.prems have a: "sorted_wrt R (unique @ rest)" and b: "sorted_wrt R (unique @ [item])"
    and c: "sorted_wrt R ((unique @ [item]) @ rest)"
    by (auto simp: sorted_wrt_append)
  show ?case using Cons.IH [OF a] Cons.IH [OF c] b by simp
qed

lemma uniqueLoop_distinct:
  "seen = set (map (\<lambda>c. entity_id (ent c)) unique) \<Longrightarrow> distinct (map (\<lambda>c. entity_id (ent c)) unique)
   \<Longrightarrow> distinct (map (\<lambda>c. entity_id (ent c)) (uniqueLoop limit seen unique items))"
proof (induction items arbitrary: seen unique)
  case Nil
  then show ?case by simp
next
  case (Cons item rest)
  show ?case
  proof (cases "entity_id (ent item) \<in> seen")
    case True
    then show ?thesis using Cons.IH [OF Cons.prems] by simp
  next
    case False
    have s: "insert (entity_id (ent item)) seen = set (map (\<lambda>c. entity_id (ent c)) (unique @ [item]))"
      using Cons.prems(1) by simp
    have d: "distinct (map (\<lambda>c. entity_id (ent c)) (unique @ [item]))"
      using Cons.prems False by simp
    show ?thesis using False Cons.IH [OF s d] d by simp
  qed
qed

lemma uniqueLoop_length:
  "length unique < limit \<Longrightarrow> length (uniqueLoop limit seen unique items) \<le> limit"
  by (induction items arbitrary: seen unique) auto



lemma find_first_fresh:
  "i \<notin> set (map (\<lambda>c. entity_id (ent c)) pre) \<Longrightarrow> entity_id (ent item) = i
   \<Longrightarrow> List.find (\<lambda>d. entity_id (ent d) = i) (pre @ item # rest) = Some item"
  by (induction pre) auto

lemma uniqueLoop_first:
  assumes "seen = set (map (\<lambda>c. entity_id (ent c)) unique)"
    and "set (map (\<lambda>c. entity_id (ent c)) pre) \<subseteq> seen"
    and "\<forall>c\<in>set unique. List.find (\<lambda>d. entity_id (ent d) = entity_id (ent c)) (pre @ items) = Some c"
  shows "\<forall>c\<in>set (uniqueLoop limit seen unique items).
           List.find (\<lambda>d. entity_id (ent d) = entity_id (ent c)) (pre @ items) = Some c"
  using assms
proof (induction items arbitrary: seen unique pre)
  case Nil
  then show ?case by simp
next
  case (Cons item rest)
  have split: "pre @ item # rest = (pre @ [item]) @ rest" by simp
  show ?case
  proof (cases "entity_id (ent item) \<in> seen")
    case True
    have p2: "set (map (\<lambda>c. entity_id (ent c)) (pre @ [item])) \<subseteq> seen"
      using Cons.prems(2) True by simp
    have p3: "\<forall>c\<in>set unique.
           List.find (\<lambda>d. entity_id (ent d) = entity_id (ent c)) ((pre @ [item]) @ rest) = Some c"
      using Cons.prems(3) by simp
    show ?thesis using Cons.IH [OF Cons.prems(1) p2 p3] True by simp
  next
    case False
    have f: "List.find (\<lambda>d. entity_id (ent d) = entity_id (ent item)) (pre @ item # rest) = Some item"
      using find_first_fresh [of "entity_id (ent item)" pre item rest] False Cons.prems(2) by auto
    have u: "\<forall>c\<in>set (unique @ [item]).
           List.find (\<lambda>d. entity_id (ent d) = entity_id (ent c)) ((pre @ [item]) @ rest) = Some c"
      using Cons.prems(3) f by simp
    have s: "insert (entity_id (ent item)) seen = set (map (\<lambda>c. entity_id (ent c)) (unique @ [item]))"
      using Cons.prems(1) by simp
    have p2: "set (map (\<lambda>c. entity_id (ent c)) (pre @ [item])) \<subseteq> insert (entity_id (ent item)) seen"
      using Cons.prems(2) by auto
    show ?thesis
    proof (cases "limit \<le> length (unique @ [item])")
      case True
      with False u show ?thesis by simp
    next
      case stop: False
      show ?thesis using Cons.IH [OF s p2 u] False stop by simp
    qed
  qed
qed

lemma uniqueLoop_keeps: "unique \<noteq> [] \<Longrightarrow> uniqueLoop limit seen unique items \<noteq> []"
  by (induction items arbitrary: seen unique) auto

lemma uniqueLoop_Nil_iff: "uniqueLoop limit {} [] items = [] \<longleftrightarrow> items = []"
  by (cases items) (auto simp: uniqueLoop_keeps)

lemma cuc_total: "codeUnitCompare a b \<le> 0 \<or> codeUnitCompare b a \<le> 0"
  by (induction a b rule: codeUnitCompare.induct) simp_all

lemma cuc_le_Cons:
  "codeUnitCompare (a # x) (b # y) \<le> 0 \<longleftrightarrow>
     (of_char a :: nat) < of_char b \<or> ((of_char a :: nat) = of_char b \<and> codeUnitCompare x y \<le> 0)"
  by auto

lemma cuc_trans:
  "codeUnitCompare a b \<le> 0 \<Longrightarrow> codeUnitCompare b c \<le> 0 \<Longrightarrow> codeUnitCompare a c \<le> 0"
proof (induction a arbitrary: b c)
  case Nil
  then show ?case by (cases c) simp_all
next
  case (Cons a0 x)
  from Cons.prems(1) obtain b0 y where b: "b = b0 # y" by (cases b) simp_all
  from Cons.prems(2) b obtain c0 z where c: "c = c0 # z" by (cases c) simp_all
  have 1: "(of_char a0 :: nat) < of_char b0 \<or> ((of_char a0 :: nat) = of_char b0 \<and> codeUnitCompare x y \<le> 0)"
    using Cons.prems(1) unfolding b cuc_le_Cons .
  have 2: "(of_char b0 :: nat) < of_char c0 \<or> ((of_char b0 :: nat) = of_char c0 \<and> codeUnitCompare y z \<le> 0)"
    using Cons.prems(2) unfolding b c cuc_le_Cons .
  have "(of_char a0 :: nat) < of_char c0 \<or> ((of_char a0 :: nat) = of_char c0 \<and> codeUnitCompare x z \<le> 0)"
    using 1 2 Cons.IH [of y z] by linarith
  then show ?case unfolding c cuc_le_Cons .
qed

lemma consistent_codeUnitCompare: "consistentCompare codeUnitCompare"
  unfolding consistentCompare_def
proof (intro conjI allI impI)
  fix a b show "codeUnitCompare a b \<le> 0 \<or> codeUnitCompare b a \<le> 0" by (rule cuc_total)
next
  fix a b c assume "codeUnitCompare a b \<le> 0 \<and> codeUnitCompare b c \<le> 0"
  then show "codeUnitCompare a c \<le> 0" using cuc_trans by blast
qed

lemma scoredCandidates_member:
  assumes "c \<in> set (scoredCandidates env tokens preferred)"
  shows "0 < score c \<and> ent c \<in> set (searchIndex (ctx env))
         \<and> score c = scoreEntity (ent c) tokens preferred (tokenIdf (ctx env))"
  using assms unfolding scoredCandidates_def set_jsSort by auto

lemma scoredCandidates_sorted:
  assumes "consistentCompare (localeCompare env)"
  shows "sorted_wrt (rankedBefore (localeCompare env)) (scoredCandidates env tokens preferred)"
  unfolding scoredCandidates_def by (rule sorted_jsSort [OF assms])

lemma findEntityCandidates_cases:
  "findEntityCandidates env text limit preferred = []
   \<or> findEntityCandidates env text limit preferred
        = uniqueLoop limit {} [] (scoredCandidates env (queryTokens text) preferred)
   \<or> (scoredCandidates env (queryTokens text) preferred = [] \<and> length (queryTokens text) = 1
       \<and> findEntityCandidates env text limit preferred
            = fallbackCandidates env (hd (queryTokens text)) limit)"
  by (auto simp: findEntityCandidates_def Let_def uniqueLoop_Nil_iff)

lemma findEntityCandidates_main:
  assumes "scoredCandidates env (queryTokens text) preferred \<noteq> [] \<or> length (queryTokens text) \<noteq> 1"
  shows "findEntityCandidates env text limit preferred = []
   \<or> findEntityCandidates env text limit preferred
        = uniqueLoop limit {} [] (scoredCandidates env (queryTokens text) preferred)"
  using findEntityCandidates_cases [of env "text" limit preferred] assms by auto

lemma findEntityCandidates_no_tokens:
  "queryTokens text = [] \<Longrightarrow> findEntityCandidates env text limit preferred = []"
  by (simp add: findEntityCandidates_def Let_def)

lemma findEntityCandidates_positive:
  assumes "c \<in> set (findEntityCandidates env text limit preferred)"
  shows "0 < score c \<and> ent c \<in> set (searchIndex (ctx env))"
proof -
  consider (e) "findEntityCandidates env text limit preferred = []"
    | (u) "findEntityCandidates env text limit preferred
        = uniqueLoop limit {} [] (scoredCandidates env (queryTokens text) preferred)"
    | (f) "findEntityCandidates env text limit preferred
            = fallbackCandidates env (hd (queryTokens text)) limit"
    using findEntityCandidates_cases [of env "text" limit preferred] by blast
  then show ?thesis
  proof cases
    case e
    with assms show ?thesis by simp
  next
    case u
    with assms have "c \<in> set (scoredCandidates env (queryTokens text) preferred)"
      using uniqueLoop_set [of limit "{}" "[]"] by auto
    then show ?thesis using scoredCandidates_member by blast
  next
    case f
    with assms show ?thesis
      by (auto simp: fallbackCandidates_def dest: in_set_takeD)
  qed
qed

lemma findEntityCandidates_length:
  assumes "1 \<le> limit"
  shows "length (findEntityCandidates env text limit preferred) \<le> limit"
proof -
  have "length (uniqueLoop limit {} [] xs) \<le> limit" for xs
    using uniqueLoop_length [of "[]" limit] assms by simp
  moreover have "length (fallbackCandidates env t limit) \<le> limit" for t
    by (simp add: fallbackCandidates_def)
  ultimately show ?thesis
    using findEntityCandidates_cases [of env "text" limit preferred] by auto
qed

text \<open>
  C4 (as amended). \<open>findEntityCandidates\<close> tokenizes the query and removes stop words, and
  returns the empty list when no token remains. Every returned candidate is an index entry
  with a strictly positive score. Unless the single-token fallback applies (no entity scores
  above zero and exactly one token remains), the list is sorted by descending score with
  ties in the order of the name comparison, no two candidates share an \<open>entity_id\<close>, every
  candidate carries its scorer's score and is the first of its id in the sorted list. For a
  limit of at least 1 the list has at most \<open>limit\<close> entries. The name comparison is
  assumed consistent (total and transitive), as a sort needs it.
\<close>

theorem candidates_ranked:
  assumes "consistentCompare (localeCompare env)"
  shows "(queryTokens text = [] \<longrightarrow> findEntityCandidates env text limit preferred = [])
    \<and> (\<forall>c\<in>set (findEntityCandidates env text limit preferred).
          0 < score c \<and> ent c \<in> set (searchIndex (ctx env)))
    \<and> (scoredCandidates env (queryTokens text) preferred \<noteq> [] \<or> length (queryTokens text) \<noteq> 1 \<longrightarrow>
          sorted_wrt (rankedBefore (localeCompare env)) (findEntityCandidates env text limit preferred)
          \<and> distinct (map (\<lambda>c. entity_id (ent c)) (findEntityCandidates env text limit preferred))
          \<and> (\<forall>c\<in>set (findEntityCandidates env text limit preferred).
                score c = scoreEntity (ent c) (queryTokens text) preferred (tokenIdf (ctx env))
                \<and> List.find (\<lambda>d. entity_id (ent d) = entity_id (ent c))
                     (scoredCandidates env (queryTokens text) preferred) = Some c))
    \<and> (1 \<le> limit \<longrightarrow> length (findEntityCandidates env text limit preferred) \<le> limit)"
proof (intro conjI impI ballI)
  assume "queryTokens text = []"
  then show "findEntityCandidates env text limit preferred = []"
    by (rule findEntityCandidates_no_tokens)
next
  fix c assume "c \<in> set (findEntityCandidates env text limit preferred)"
  then show "0 < score c" "ent c \<in> set (searchIndex (ctx env))"
    using findEntityCandidates_positive by blast+
next
  assume "1 \<le> limit"
  then show "length (findEntityCandidates env text limit preferred) \<le> limit"
    by (rule findEntityCandidates_length)
next
  let ?S = "scoredCandidates env (queryTokens text) preferred"
  let ?U = "uniqueLoop limit {} [] ?S"
  assume m: "?S \<noteq> [] \<or> length (queryTokens text) \<noteq> 1"
  note r = findEntityCandidates_main [OF m, of limit]
  have sU: "sorted_wrt (rankedBefore (localeCompare env)) ?U"
    using uniqueLoop_sorted [of _ "[]" ?S] scoredCandidates_sorted [OF assms] by simp
  have dU: "distinct (map (\<lambda>c. entity_id (ent c)) ?U)"
    using uniqueLoop_distinct [of "{}" "[]"] by simp
  have fU: "\<forall>c\<in>set ?U. List.find (\<lambda>d. entity_id (ent d) = entity_id (ent c)) ?S = Some c"
    using uniqueLoop_first [of "{}" "[]" "[]" ?S limit] by simp
  show "sorted_wrt (rankedBefore (localeCompare env)) (findEntityCandidates env text limit preferred)"
    using r sU by auto
  show "distinct (map (\<lambda>c. entity_id (ent c)) (findEntityCandidates env text limit preferred))"
    using r dU by auto
  fix c assume c: "c \<in> set (findEntityCandidates env text limit preferred)"
  then have cU: "c \<in> set ?U" using r by auto
  then have "c \<in> set ?S" using uniqueLoop_set [of limit "{}" "[]" ?S] by auto
  then show "score c = scoreEntity (ent c) (queryTokens text) preferred (tokenIdf (ctx env))"
    using scoredCandidates_member by blast
  show "List.find (\<lambda>d. entity_id (ent d) = entity_id (ent c)) ?S = Some c"
    using fU cU by blast
qed

theorem candidates_ranked_witness:
  "sorted_wrt (rankedBefore (localeCompare livingRoomEnv)) (findEntityCandidates livingRoomEnv ''the lamp'' 8 [])
   \<and> distinct (map (\<lambda>c. entity_id (ent c)) (findEntityCandidates livingRoomEnv ''the lamp'' 8 []))
   \<and> length (findEntityCandidates livingRoomEnv ''the lamp'' 8 []) \<le> 8
   \<and> map (\<lambda>c. (entity_id (ent c), score c)) (findEntityCandidates livingRoomEnv ''the lamp'' 8 [])
       = [(''light.couch'', 11 / 2), (''light.the_wall'', 11 / 2)]"
proof -
  have c: "consistentCompare (localeCompare livingRoomEnv)"
    using consistent_codeUnitCompare by (simp add: livingRoomEnv_def)
  have s: "scoredCandidates livingRoomEnv (queryTokens ''the lamp'') [] \<noteq> []"
    by code_simp
  have v: "map (\<lambda>c. (entity_id (ent c), score c)) (findEntityCandidates livingRoomEnv ''the lamp'' 8 [])
       = [(''light.couch'', 11 / 2), (''light.the_wall'', 11 / 2)]"
    by code_simp
  show ?thesis
    using candidates_ranked [OF c, of "''the lamp''" 8 "[]"] s v by simp
qed

text \<open>
  The claim as stated fails on the fallback path: for the query \<open>kit\<close> no entity of the
  kitchen registry scores, both ids hold \<open>kit\<close>, and the fallback returns them in index
  order, \<open>Zed\<close> before \<open>Abe\<close>, with equal scores.
\<close>

theorem candidates_fallback_unsorted:
  "queryTokens ''kit'' = [''kit'']
   \<and> map (\<lambda>c. (name (ent c), score c)) (findEntityCandidates kitchenEnv ''kit'' 8 [])
       = [(''Zed'', 1 / 2), (''Abe'', 1 / 2)]
   \<and> \<not> sorted_wrt (rankedBefore codeUnitCompare) (findEntityCandidates kitchenEnv ''kit'' 8 [])"
  by code_simp

text \<open>
  The de-duplicating loop tests the limit only after it has pushed an item, so a limit of
  0 yields one candidate where the fallback's \<open>slice(0, limit)\<close> yields none.
\<close>

lemma limit_zero_returns_one:
  "length (findEntityCandidates livingRoomEnv ''lamp'' 0 []) = 1"
  by code_simp

section \<open>IDF weighting table\<close>

lemma countToken_other: "t \<noteq> token \<Longrightarrow> countToken m token t = m t"
  by (simp add: countToken_def)

lemma countToken_same:
  "countToken m token token = Some ((case m token of None \<Rightarrow> 0 | Some n \<Rightarrow> n) + 1)"
  by (simp add: countToken_def)

lemma foldl_countToken_notin:
  "t \<notin> set ts \<Longrightarrow> foldl countToken m ts t = m t"
  by (induction ts arbitrary: m) (auto simp: countToken_other)

lemma foldl_countToken_in:
  "distinct ts \<Longrightarrow> t \<in> set ts \<Longrightarrow>
     foldl countToken m ts t = Some ((case m t of None \<Rightarrow> 0 | Some n \<Rightarrow> n) + 1)"
proof (induction ts arbitrary: m)
  case Nil
  then show ?case by simp
next
  case (Cons a ts)
  show ?case
  proof (cases "t = a")
    case True
    with Cons.prems have "t \<notin> set ts" by simp
    then have "foldl countToken (countToken m a) ts t = countToken m a t"
      by (rule foldl_countToken_notin)
    then show ?thesis using True by (simp add: countToken_same)
  next
    case False
    with Cons.prems have "distinct ts" "t \<in> set ts" by auto
    from Cons.IH [OF this] False show ?thesis by (simp add: countToken_other)
  qed
qed

lemma countEntity_at:
  "countEntity m e t =
     (if t \<in> set (tokenizeForMatch (normalized e)) then Some (countOf m t + 1) else m t)"
  unfolding countEntity_def countOf_def
  by (simp add: foldl_countToken_notin foldl_countToken_in)

lemma foldl_countEntity_at:
  "(m t = None \<longrightarrow> docFreq index t = 0 \<longrightarrow> foldl countEntity m index t = None)
   \<and> (m t \<noteq> None \<or> docFreq index t \<noteq> 0 \<longrightarrow>
        foldl countEntity m index t = Some (countOf m t + docFreq index t))"
proof (induction index arbitrary: m)
  case Nil
  then show ?case by (auto simp: docFreq_def countOf_def)
next
  case (Cons e es)
  show ?case
  proof (cases "t \<in> set (tokenizeForMatch (normalized e))")
    case True
    then have "countEntity m e t = Some (countOf m t + 1)" by (simp add: countEntity_at)
    then show ?thesis using Cons.IH [of "countEntity m e"] True
      by (auto simp: docFreq_def countOf_def)
  next
    case False
    then have "countEntity m e t = m t" by (simp add: countEntity_at)
    then show ?thesis using Cons.IH [of "countEntity m e"] False
      by (auto simp: docFreq_def countOf_def)
  qed
qed

lemma docFreq_le: "docFreq index t \<le> length index"
  by (simp add: docFreq_def)

lemma buildTokenIdf_at:
  "buildTokenIdf index t =
     (if docFreq index t = 0 then None
      else Some (max (1 / 2) (min (log 2 (real (length index) / real (docFreq index t))) 10)))"
proof (cases "docFreq index t = 0")
  case True
  then show ?thesis
    using foldl_countEntity_at [of Map.empty t index]
    by (simp add: buildTokenIdf_def Let_def)
next
  case False
  then have "index \<noteq> []" by (auto simp: docFreq_def)
  moreover have "foldl countEntity Map.empty index t = Some (docFreq index t)"
    using foldl_countEntity_at [of Map.empty t index] False by (simp add: countOf_def)
  ultimately show ?thesis using False
    by (simp add: buildTokenIdf_def Let_def idfWeight_def)
qed

text \<open>
  C5. For every snapshot index and token \<open>t\<close>, with \<open>df(t)\<close> the number of index entries
  whose normalized text holds \<open>t\<close> and \<open>N\<close> the number of entries: the table has a weight
  for \<open>t\<close> exactly when \<open>df(t) > 0\<close>, and then it is \<open>max 0.5 (min (log2 (N / df(t))) 10)\<close>;
  every stored weight lies in [0.5, 10]; and of two tokens in the table, the one in fewer
  entries has the weight that is at least as large. (Weights are real numbers here.)
\<close>

theorem idf_weights:
  "buildTokenIdf index t =
     (if docFreq index t = 0 then None
      else Some (max (1 / 2) (min (log 2 (real (length index) / real (docFreq index t))) 10)))
   \<and> (\<forall>w. buildTokenIdf index t = Some w \<longrightarrow> 1 / 2 \<le> w \<and> w \<le> 10)
   \<and> (\<forall>a b wa wb. buildTokenIdf index a = Some wa \<and> buildTokenIdf index b = Some wb
          \<and> docFreq index a < docFreq index b \<longrightarrow> wb \<le> wa)"
proof (intro conjI allI impI)
  show "buildTokenIdf index t =
     (if docFreq index t = 0 then None
      else Some (max (1 / 2) (min (log 2 (real (length index) / real (docFreq index t))) 10)))"
    by (rule buildTokenIdf_at)
next
  fix w assume "buildTokenIdf index t = Some w"
  then have "w = max (1 / 2) (min (log 2 (real (length index) / real (docFreq index t))) 10)"
    by (simp add: buildTokenIdf_at split: if_splits)
  then show "1 / 2 \<le> w" "w \<le> 10" by auto
next
  fix a b wa wb
  assume h: "buildTokenIdf index a = Some wa \<and> buildTokenIdf index b = Some wb
          \<and> docFreq index a < docFreq index b"
  then have da: "0 < docFreq index a" and db: "0 < docFreq index b"
    by (auto simp: buildTokenIdf_at split: if_splits)
  have wa: "wa = max (1 / 2) (min (log 2 (real (length index) / real (docFreq index a))) 10)"
    and wb: "wb = max (1 / 2) (min (log 2 (real (length index) / real (docFreq index b))) 10)"
    using h by (auto simp: buildTokenIdf_at split: if_splits)
  have n: "0 < length index" using da docFreq_le [of index a] by linarith
  have "real (length index) / real (docFreq index b) \<le> real (length index) / real (docFreq index a)"
    using h da db by (simp add: frac_le)
  moreover have "0 < real (length index) / real (docFreq index b)"
    using n db by simp
  ultimately have "log 2 (real (length index) / real (docFreq index b))
      \<le> log 2 (real (length index) / real (docFreq index a))"
    by (simp add: log_le_cancel_iff)
  then show "wb \<le> wa" unfolding wa wb by auto
qed

theorem idf_weights_witness:
  "buildTokenIdf twoLights ''whiskey'' = Some 1 \<and> buildTokenIdf twoLights ''light'' = Some (1 / 2)
   \<and> buildTokenIdf twoLights ''sofa'' = None
   \<and> docFreq twoLights ''whiskey'' < docFreq twoLights ''light''"
proof -
  have w: "docFreq twoLights ''whiskey'' = 1" by code_simp
  have l: "docFreq twoLights ''light'' = 2" by code_simp
  have s: "docFreq twoLights ''sofa'' = 0" by code_simp
  have n: "length twoLights = 2" by (simp add: twoLights_def)
  show ?thesis
    using idf_weights [of twoLights "''whiskey''"] idf_weights [of twoLights "''light''"]
      idf_weights [of twoLights "''sofa''"]
    by (simp add: w l s n)
qed

section \<open>Direct on/off commands\<close>

lemma directActions_length: "length (directActions env svc segments) \<le> length segments"
  unfolding directActions_def
  by (induction segments) (auto split: option.splits)

lemma directActions_Cons:
  "directActions env svc (seg # rest) =
     (case segmentEntity env seg of None \<Rightarrow> [] | Some e \<Rightarrow> [directAction svc e])
       @ directActions env svc rest"
  by (simp add: directActions_def)

lemma directActions_Nil: "directActions env svc [] = []"
  by (simp add: directActions_def)

lemma segmentEntity_Some:
  "segmentEntity env seg = Some e \<Longrightarrow>
     \<exists>i. selectEntityId env seg directOptions = Some i \<and> getEntityById (ctx env) i = Some e"
  by (auto simp: segmentEntity_def split: option.splits if_splits)

lemma directActions_complete:
  assumes "length segments \<le> length (directActions env svc segments)"
  shows "list_all2
           (\<lambda>a seg. \<exists>i e. selectEntityId env seg directOptions = Some i
                         \<and> getEntityById (ctx env) i = Some e \<and> a = directAction svc e)
           (directActions env svc segments) segments"
  using assms
proof (induction segments)
  case Nil
  then show ?case by (simp add: directActions_Nil)
next
  case (Cons seg rest)
  note le = directActions_length [of env svc rest]
  show ?case
  proof (cases "segmentEntity env seg")
    case None
    with Cons.prems le show ?thesis by (simp add: directActions_Cons)
  next
    case (Some e)
    with Cons.prems have "length rest \<le> length (directActions env svc rest)"
      by (simp add: directActions_Cons)
    from Cons.IH [OF this] segmentEntity_Some [OF Some] Some show ?thesis
      by (auto simp: directActions_Cons)
  qed
qed

lemma directLoop_Some:
  "directLoop env trimmed pats = Some r \<Longrightarrow>
     \<exists>pat\<in>set pats. startsWith (toLowerCase trimmed) (fst pat)
        \<and> directAttempt env trimmed pat = Return (Some r)"
proof (induction pats)
  case Nil
  then show ?case by simp
next
  case (Cons pat pats)
  then show ?case
    by (cases "directAttempt env trimmed pat") (auto split: if_splits)
qed

lemma directAttempt_Some:
  assumes "directAttempt env trimmed pat = Return (Some r)"
  shows "actions r = directActions env (snd pat) (directSegments trimmed (fst pat))"
    and "actions r \<noteq> []"
    and "length (directSegments trimmed (fst pat))
           \<le> length (directActions env (snd pat) (directSegments trimmed (fst pat)))"
  using assms by (auto simp: directAttempt_def Let_def split: if_splits)

text \<open>
  C2. Whenever \<open>detectDirectAliasCommand\<close> returns an intent, the text starts (ignoring case)
  with one of the prefixes \<open>turn on\<close>, \<open>turn off\<close>, \<open>switch on\<close>, \<open>switch off\<close>, and the
  actions correspond one to one, in order, to the segments the conjunction splitter makes
  of the rest: every segment is resolved by the selector to an id that the snapshot holds,
  and its action is the one for that entity. So the result is null unless every segment
  resolves to a valid entity, and never holds actions for a strict subset of the segments.
\<close>

theorem direct_all_or_nothing:
  assumes "detectDirectAliasCommand env text = Some r"
  shows "\<exists>pat\<in>set directPatterns.
           startsWith (toLowerCase (trim text)) (fst pat)
           \<and> actions r \<noteq> []
           \<and> list_all2
               (\<lambda>a seg. \<exists>i e. selectEntityId env seg directOptions = Some i
                             \<and> getEntityById (ctx env) i = Some e
                             \<and> a = directAction (snd pat) e)
               (actions r) (splitConjunctionTargets (trim (drop (length (fst pat)) (trim text))))"
proof -
  from assms obtain pat where p: "pat \<in> set directPatterns"
    and s: "startsWith (toLowerCase (trim text)) (fst pat)"
    and a: "directAttempt env (trim text) pat = Return (Some r)"
    using directLoop_Some unfolding detectDirectAliasCommand_def by blast
  note d = directAttempt_Some [OF a]
  have "list_all2
          (\<lambda>a seg. \<exists>i e. selectEntityId env seg directOptions = Some i
                        \<and> getEntityById (ctx env) i = Some e \<and> a = directAction (snd pat) e)
          (actions r) (directSegments (trim text) (fst pat))"
    unfolding d(1) by (rule directActions_complete [OF d(3)])
  then show ?thesis using p s d(2) unfolding directSegments_def by blast
qed

theorem direct_all_or_nothing_witness:
  "\<exists>pat\<in>set directPatterns.
       startsWith (toLowerCase (trim ''Turn on couch and the wall'')) (fst pat)
     \<and> list_all2
         (\<lambda>a seg. \<exists>i e. selectEntityId livingRoomEnv seg directOptions = Some i
                       \<and> getEntityById (ctx livingRoomEnv) i = Some e
                       \<and> a = directAction (snd pat) e)
         [directAction ''turn_on'' (mkEntity ''light.couch'' ''light'' ''Couch Lamp'' None True),
          directAction ''turn_on'' (mkEntity ''light.the_wall'' ''light'' ''Wall Lamp'' None True)]
         (splitConjunctionTargets (trim (drop (length (fst pat)) (trim ''Turn on couch and the wall''))))"
proof -
  have e: "detectDirectAliasCommand livingRoomEnv ''Turn on couch and the wall'' =
      Some \<lparr>actions =
              [directAction ''turn_on'' (mkEntity ''light.couch'' ''light'' ''Couch Lamp'' None True),
               directAction ''turn_on'' (mkEntity ''light.the_wall'' ''light'' ''Wall Lamp'' None True)],
            successMessage = ''Couch Lamp, Wall Lamp turned on.''\<rparr>"
    by code_simp
  show ?thesis using direct_all_or_nothing [OF e] by simp
qed

text \<open>With one segment of two unresolved, the detector returns null.\<close>

lemma direct_partial_example:
  "detectDirectAliasCommand sensorEnv ''turn on couch'' \<noteq> None
   \<and> detectDirectAliasCommand sensorEnv ''turn on couch and sofa'' = None"
  by code_simp

section \<open>Matches of the brightness patterns\<close>

lemma runs_nth:
  "k < length (runs p s) \<Longrightarrow>
     runs p s ! k = drop k s \<and> k \<le> length s \<and> (\<forall>c\<in>set (take k s). p c)"
proof (induction s arbitrary: k)
  case Nil
  then show ?case by simp
next
  case (Cons c cs)
  show ?case
  proof (cases k)
    case 0
    then show ?thesis by simp
  next
    case (Suc j)
    with Cons.prems have pc: "p c" and j: "j < length (runs p cs)"
      by (auto split: if_splits)
    from Cons.IH [OF j] pc Suc show ?thesis by simp
  qed
qed

lemma drop_take_mem:
  assumes "r \<in> set (drop lo (take n xs))"
  shows "\<exists>k. lo \<le> k \<and> k < n \<and> k < length xs \<and> r = xs ! k"
proof -
  from assms obtain i where i: "i < length (drop lo (take n xs))" and r: "r = drop lo (take n xs) ! i"
    by (auto simp: in_set_conv_nth)
  from i have b: "lo + i < n" "lo + i < length xs" by auto
  then have "lo \<le> length (take n xs)" by simp
  then have "drop lo (take n xs) ! i = take n xs ! (lo + i)" by (rule nth_drop)
  also have "\<dots> = xs ! (lo + i)" using b by simp
  finally have "r = xs ! (lo + i)" using r by simp
  with b show ?thesis by (intro exI [of _ "lo + i"]) simp
qed

lemma drop_mem:
  assumes "r \<in> set (drop lo xs)"
  shows "\<exists>k. lo \<le> k \<and> k < length xs \<and> r = xs ! k"
  using drop_take_mem [of r lo "length xs" xs] assms by auto

lemma set_repRests:
  "set (repRests g lo hi p s) =
     set (drop lo (case hi of None \<Rightarrow> runs p s | Some h \<Rightarrow> take (Suc h) (runs p s)))"
  by (simp add: repRests_def Let_def)

lemma repRests_mem:
  assumes "r \<in> set (repRests g lo hi p s)"
  shows "\<exists>k. lo \<le> k \<and> (case hi of None \<Rightarrow> True | Some h \<Rightarrow> k \<le> h) \<and> k \<le> length s
            \<and> r = drop k s \<and> (\<forall>c\<in>set (take k s). p c)"
proof (cases hi)
  case None
  with assms have "r \<in> set (drop lo (runs p s))"
    unfolding set_repRests by simp
  from drop_mem [OF this] obtain k where k: "lo \<le> k" "k < length (runs p s)" "r = runs p s ! k"
    by (elim exE conjE)
  note n = runs_nth [OF k(2)]
  show ?thesis
    unfolding None using k(1) k(3) n by (intro exI [of _ k]) simp
next
  case (Some h)
  with assms have "r \<in> set (drop lo (take (Suc h) (runs p s)))"
    unfolding set_repRests by simp
  from drop_take_mem [OF this] obtain k where k: "lo \<le> k" "k < Suc h" "k < length (runs p s)" "r = runs p s ! k"
    by (elim exE conjE)
  note n = runs_nth [OF k(3)]
  show ?thesis
    unfolding Some using k(1) k(2) k(4) n by (intro exI [of _ k]) simp
qed


lemma rmatch_Seq_mem:
  "x \<in> set (rmatch (Seq a b) st) \<longleftrightarrow> (\<exists>mid\<in>set (rmatch a st). x \<in> set (rmatch b mid))"
  by auto

lemma rmatch_caps:
  "(c', r) \<in> set (rmatch re (c, s)) \<Longrightarrow> n \<notin> groupsOf re \<Longrightarrow> c' n = c n"
proof (induction re arbitrary: c s c' r)
  case (Lit w)
  then show ?case by (simp split: if_splits)
next
  case (LitI w)
  then show ?case by (simp split: if_splits)
next
  case (Rep g lo hi p)
  then show ?case by auto
next
  case (Seq a b)
  from Seq.prems(1) obtain c1 s1 where 1: "(c1, s1) \<in> set (rmatch a (c, s))"
    and 2: "(c', r) \<in> set (rmatch b (c1, s1))" by auto
  from Seq.IH(1) [OF 1] Seq.IH(2) [OF 2] Seq.prems(2) show ?case by simp
next
  case (Alt a b)
  from Alt.prems(1) have "(c', r) \<in> set (rmatch a (c, s)) \<or> (c', r) \<in> set (rmatch b (c, s))"
    by simp
  with Alt.IH Alt.prems(2) show ?case by auto
next
  case (Opt a)
  from Opt.prems(1) have "(c', r) \<in> set (rmatch a (c, s)) \<or> (c', r) = (c, s)" by auto
  with Opt.IH Opt.prems(2) show ?case by auto
next
  case (Group k a)
  from Group.prems(1) obtain c1 where 1: "(c1, r) \<in> set (rmatch a (c, s))"
    and 2: "c' = c1(k \<mapsto> take (length s - length r) s)" by auto
  from Group.IH [OF 1] Group.prems(2) 2 show ?case by simp
next
  case Eos
  then show ?case by (simp split: if_splits)
qed

lemma yieldsDigits_group:
  "yieldsDigits (Group 2 (Rep True 1 (Some 3) isDigit))"
  unfolding yieldsDigits_def
proof (intro allI impI)
  fix c' r st
  assume a: "(c', r) \<in> set (rmatch (Group 2 (Rep True 1 (Some 3) isDigit)) st)"
  obtain c s where st: "st = (c, s)" by (cases st)
  from a have r: "r \<in> set (repRests True 1 (Some 3) isDigit s)"
    and c': "c' = c(2 \<mapsto> take (length s - length r) s)" unfolding st by auto
  from repRests_mem [OF r] obtain k where k: "1 \<le> k" "k \<le> 3" "k \<le> length s" "r = drop k s"
    "\<forall>ch\<in>set (take k s). isDigit ch" by auto
  then have "take (length s - length r) s = take k s" by simp
  moreover have "digitGroup (take k s)"
    using k unfolding digitGroup_def by (auto simp: list_all_iff)
  ultimately show "\<exists>d. c' 2 = Some d \<and> digitGroup d" using c' by simp
qed




lemma yieldsDigits_SeqR: "yieldsDigits b \<Longrightarrow> yieldsDigits (Seq a b)"
  unfolding yieldsDigits_def rmatch_Seq_mem by blast

lemma yieldsDigits_SeqL:
  assumes "yieldsDigits a" and "2 \<notin> groupsOf b"
  shows "yieldsDigits (Seq a b)"
  unfolding yieldsDigits_def
proof (intro allI impI)
  fix c' r st
  assume "(c', r) \<in> set (rmatch (Seq a b) st)"
  then obtain mid where m: "mid \<in> set (rmatch a st)" and e: "(c', r) \<in> set (rmatch b mid)"
    unfolding rmatch_Seq_mem by blast
  obtain c1 s1 where mid: "mid = (c1, s1)" by (cases mid)
  from assms(1) m obtain d where d: "c1 2 = Some d" "digitGroup d"
    unfolding yieldsDigits_def mid by blast
  from e have "c' 2 = c1 2" unfolding mid using assms(2) by (rule rmatch_caps)
  with d show "\<exists>d. c' 2 = Some d \<and> digitGroup d" by simp
qed

lemma yieldsDigits_tail: "yieldsDigits brightnessTail"
  unfolding brightnessTail_def
  apply (rule yieldsDigits_SeqR)
  apply (rule yieldsDigits_SeqR)
  apply (rule yieldsDigits_SeqR)
  apply (rule yieldsDigits_SeqR)
  apply (rule yieldsDigits_SeqL)
   apply (rule yieldsDigits_group)
  apply simp
  done

lemma pattern_digits:
  assumes "p \<in> set brightnessPatterns" and "matchStart p s = Some m"
  shows "\<exists>d. m 2 = Some d \<and> digitGroup d"
proof -
  from assms(1) obtain k where "p = Seq k (Seq (Rep True 1 None isSpace) brightnessTail)"
    unfolding brightnessPatterns_def by auto
  then have "yieldsDigits p"
    using yieldsDigits_tail by (simp add: yieldsDigits_SeqR)
  moreover from assms(2) obtain r where "(m, r) \<in> set (rmatch p (Map.empty, s))"
    by (auto simp: matchStart_def split: list.splits)
  ultimately show ?thesis unfolding yieldsDigits_def by blast
qed

lemma isDigit_plain:
  "isDigit c \<Longrightarrow> \<not> isSpace c \<and> c \<noteq> CHR ''-'' \<and> c \<noteq> CHR ''+''"
  unfolding isDigit_def isSpace_def by auto

lemma parseInt10_digits:
  assumes "digitGroup d"
  shows "\<exists>n. parseInt10 d = Some (int n)"
proof -
  from assms obtain c cs where d: "d = c # cs" and all: "list_all isDigit d"
    unfolding digitGroup_def by (cases d) auto
  from all d have c: "isDigit c" by simp
  note pl = isDigit_plain [OF c]
  have tw: "takeWhile isDigit d = d"
    using all by (simp add: list_all_iff)
  have "dropWhile isSpace d = d" using pl d by simp
  then show ?thesis
    using pl d tw unfolding parseInt10_def Let_def by simp
qed

lemma valueOf_pattern:
  assumes "p \<in> set brightnessPatterns" and "matchStart p s = Some m"
  shows "\<exists>d n. m 2 = Some d \<and> digitGroup d \<and> parseInt10 d = Some (int n)
           \<and> valueOf m = Some (min 100 (int n))"
proof -
  from pattern_digits [OF assms] obtain d where d: "m 2 = Some d" "digitGroup d" by blast
  from parseInt10_digits [OF d(2)] obtain n where n: "parseInt10 d = Some (int n)" by blast
  have "valueOf m = Some (min 100 (int n))"
    using d(1) n by (simp add: valueOf_def capture_def clampPercent_def min_def)
  with d n show ?thesis by blast
qed

lemma brightnessLoop_Some:
  "brightnessLoop env getLast sender lowered ps = Some r \<Longrightarrow>
     \<exists>p\<in>set ps. \<exists>m. matchStart p lowered = Some m
        \<and> brightnessAttempt env getLast sender m = Return (Some r)"
proof (induction ps)
  case Nil
  then show ?case by simp
next
  case (Cons p ps)
  show ?case
  proof (cases "matchStart p lowered")
    case None
    with Cons show ?thesis by simp
  next
    case (Some m)
    show ?thesis
    proof (cases "brightnessAttempt env getLast sender m")
      case Continue
      with Some Cons show ?thesis by simp
    next
      case (Return x)
      with Some Cons.prems have "x = Some r" by simp
      with Some Return show ?thesis by simp
    qed
  qed
qed

lemma brightnessLoop_skip:
  assumes "\<forall>q\<in>set pre. matchStart q lowered = None
             \<or> (\<exists>m'. matchStart q lowered = Some m'
                    \<and> brightnessAttempt env getLast sender m' = Continue)"
  shows "brightnessLoop env getLast sender lowered (pre @ ps)
           = brightnessLoop env getLast sender lowered ps"
  using assms by (induction pre) auto

lemma brightnessAttempt_Some:
  assumes "brightnessAttempt env getLast sender m = Return (Some r)"
  shows "\<exists>v. valueOf m = Some v
     \<and> r = brightnessIntent (isAllRequest m) v
           (filter supportsBrightness (dedupeEntities
              (if isAllRequest m then groupTargets env (rawTargetOf m) (filterTokensOf m)
               else segmentTargets env getLast sender (splitConjunctionTargets (rawTargetOf m)))))
     \<and> \<not> (\<not> isAllRequest m \<and> 1 < length (splitConjunctionTargets (rawTargetOf m))
            \<and> length (segmentTargets env getLast sender (splitConjunctionTargets (rawTargetOf m)))
                < length (splitConjunctionTargets (rawTargetOf m)))"
proof (cases "valueOf m")
  case None
  with assms show ?thesis by (simp add: brightnessAttempt_def)
next
  case (Some v)
  with assms show ?thesis
    by (simp add: brightnessAttempt_def Let_def split: if_splits)
qed

lemma brightnessAttempt_partial:
  assumes "valueOf m = Some v" and "\<not> isAllRequest m"
    and "1 < length (splitConjunctionTargets (rawTargetOf m))"
    and "length (segmentTargets env getLast sender (splitConjunctionTargets (rawTargetOf m)))
           < length (splitConjunctionTargets (rawTargetOf m))"
  shows "brightnessAttempt env getLast sender m = Return None"
  using assms by (simp add: brightnessAttempt_def Let_def)

section \<open>Brightness commands\<close>

lemma dedupeLoop_subset: "set (dedupeLoop seen es) \<subseteq> set es"
  by (induction es arbitrary: seen) auto

lemma dedupeLoop_ids:
  "entity_id ` set (dedupeLoop seen es) = entity_id ` set es - seen"
  by (induction es arbitrary: seen) auto

lemma dedupeLoop_distinct: "distinct (map entity_id (dedupeLoop seen es))"
proof (induction es arbitrary: seen)
  case Nil
  then show ?case by simp
next
  case (Cons e es)
  have "entity_id e \<notin> entity_id ` set (dedupeLoop (insert (entity_id e) seen) es)"
    unfolding dedupeLoop_ids by simp
  with Cons show ?case by simp
qed

lemma matchesFilterTokens_iff:
  "matchesFilterTokens ft e \<longleftrightarrow>
     (\<forall>t\<in>set ft. includesStr (normalized e) t \<or> includesStr (toLowerCase (entity_id e)) t)"
  unfolding matchesFilterTokens_def by (cases ft) (auto simp: list_all_iff)

lemma groupTargets_set:
  "set (groupTargets env rawTarget ft) =
     {e. \<exists>c\<in>set (groupCandidates env rawTarget ft). e = ent c \<and> isDimmableLight e
           \<and> matchesFilterTokens ft e}"
  unfolding groupTargets_def by auto

lemma brightnessIntent_actions:
  "actions (brightnessIntent isAll v es) = map (brightnessAction v) es"
  by (simp add: brightnessIntent_def Let_def)

lemma group_actions:
  fixes env rawTarget ft v
  defines "acts \<equiv> map (brightnessAction v)
              (filter supportsBrightness (dedupeEntities (groupTargets env rawTarget ft)))"
  shows "(\<forall>a\<in>set acts. service a = ''light.turn_on'' \<and> brightness_pct a = Some v
            \<and> (\<exists>c\<in>set (groupCandidates env rawTarget ft). isDimmableLight (ent c)
                   \<and> matchesFilterTokens ft (ent c) \<and> act_entity_id a = entity_id (ent c)))"
    and "(\<forall>c\<in>set (groupCandidates env rawTarget ft).
            isDimmableLight (ent c) \<and> matchesFilterTokens ft (ent c)
              \<longrightarrow> (\<exists>a\<in>set acts. act_entity_id a = entity_id (ent c)))"
    and "distinct (map act_entity_id acts)"
proof -
  let ?T = "groupTargets env rawTarget ft"
  let ?D = "filter supportsBrightness (dedupeEntities ?T)"
  have sub: "set ?D \<subseteq> set ?T"
    using dedupeLoop_subset [of "{}" ?T] by (auto simp: dedupeEntities_def)
  show "\<forall>a\<in>set acts. service a = ''light.turn_on'' \<and> brightness_pct a = Some v
            \<and> (\<exists>c\<in>set (groupCandidates env rawTarget ft). isDimmableLight (ent c)
                   \<and> matchesFilterTokens ft (ent c) \<and> act_entity_id a = entity_id (ent c))"
  proof
    fix a assume "a \<in> set acts"
    then obtain e where e: "e \<in> set ?D" and a: "a = brightnessAction v e"
      unfolding acts_def by auto
    from e sub have "e \<in> set ?T" by blast
    then obtain c where "c \<in> set (groupCandidates env rawTarget ft)" "e = ent c"
      "isDimmableLight e" "matchesFilterTokens ft e"
      unfolding groupTargets_set by blast
    then show "service a = ''light.turn_on'' \<and> brightness_pct a = Some v
            \<and> (\<exists>c\<in>set (groupCandidates env rawTarget ft). isDimmableLight (ent c)
                   \<and> matchesFilterTokens ft (ent c) \<and> act_entity_id a = entity_id (ent c))"
      unfolding a by (auto simp: brightnessAction_def)
  qed
  show "\<forall>c\<in>set (groupCandidates env rawTarget ft).
            isDimmableLight (ent c) \<and> matchesFilterTokens ft (ent c)
              \<longrightarrow> (\<exists>a\<in>set acts. act_entity_id a = entity_id (ent c))"
  proof (intro ballI impI)
    fix c assume c: "c \<in> set (groupCandidates env rawTarget ft)"
      and w: "isDimmableLight (ent c) \<and> matchesFilterTokens ft (ent c)"
    then have "ent c \<in> set ?T" unfolding groupTargets_set by blast
    then have "entity_id (ent c) \<in> entity_id ` set (dedupeEntities ?T)"
      unfolding dedupeEntities_def dedupeLoop_ids by simp
    then obtain e where e: "e \<in> set (dedupeEntities ?T)" and i: "entity_id e = entity_id (ent c)"
      by auto
    from e have "e \<in> set ?T"
      using dedupeLoop_subset [of "{}" ?T] by (auto simp: dedupeEntities_def)
    then have "supportsBrightness e"
      unfolding groupTargets_set isDimmableLight_def by blast
    with e have "brightnessAction v e \<in> set acts" unfolding acts_def by simp
    moreover have "act_entity_id (brightnessAction v e) = entity_id (ent c)"
      using i by (simp add: brightnessAction_def)
    ultimately show "\<exists>a\<in>set acts. act_entity_id a = entity_id (ent c)" by blast
  qed
  have "map act_entity_id acts = map entity_id ?D"
    unfolding acts_def by (simp add: brightnessAction_def comp_def)
  moreover have "distinct (map entity_id ?D)"
    using dedupeLoop_distinct [of "{}" ?T]
    unfolding dedupeEntities_def by (simp add: distinct_map_filter)
  ultimately show "distinct (map act_entity_id acts)" by simp
qed

lemma wantedLight_iff:
  "wantedLight ft e \<longleftrightarrow> isDimmableLight e \<and> matchesFilterTokens ft e"
  unfolding wantedLight_def isDimmableLight_def matchesFilterTokens_iff
  by (auto simp: list_all_iff)

lemma group_oneActionPerLight:
  "oneActionPerLight (groupCandidates env rawTarget ft) ft v
     (map (brightnessAction v)
        (filter supportsBrightness (dedupeEntities (groupTargets env rawTarget ft))))"
proof -
  note g = group_actions [where v = v and env = env and rawTarget = rawTarget and ft = ft]
  show ?thesis
    unfolding oneActionPerLight_def wantedLight_iff list_all_iff list_ex_iff
  proof (intro conjI)
    show "distinct (map act_entity_id (map (brightnessAction v)
        (filter supportsBrightness (dedupeEntities (groupTargets env rawTarget ft)))))"
      by (rule g(3))
  qed (use g(1) g(2) in blast)+
qed

text \<open>The dimmable targets of group mode are empty exactly when no candidate is wanted.\<close>

lemma group_dimmable_empty_iff:
  "filter supportsBrightness (dedupeEntities (groupTargets env rawTarget ft)) = []
     \<longleftrightarrow> \<not> list_ex (\<lambda>c. wantedLight ft (ent c)) (groupCandidates env rawTarget ft)"
proof
  assume e: "filter supportsBrightness (dedupeEntities (groupTargets env rawTarget ft)) = []"
  show "\<not> list_ex (\<lambda>c. wantedLight ft (ent c)) (groupCandidates env rawTarget ft)"
  proof
    assume "list_ex (\<lambda>c. wantedLight ft (ent c)) (groupCandidates env rawTarget ft)"
    then obtain c where "c \<in> set (groupCandidates env rawTarget ft)"
      "isDimmableLight (ent c) \<and> matchesFilterTokens ft (ent c)"
      unfolding list_ex_iff wantedLight_iff by blast
    with group_actions(2) [where v = 0 and env = env and rawTarget = rawTarget and ft = ft]
    obtain a where "a \<in> set (map (brightnessAction 0)
        (filter supportsBrightness (dedupeEntities (groupTargets env rawTarget ft))))"
      by blast
    then show False unfolding e by simp
  qed
next
  assume n: "\<not> list_ex (\<lambda>c. wantedLight ft (ent c)) (groupCandidates env rawTarget ft)"
  have "set (groupTargets env rawTarget ft) = {}"
    using n unfolding groupTargets_set list_ex_iff wantedLight_iff by blast
  then have "groupTargets env rawTarget ft = []" by simp
  then show "filter supportsBrightness (dedupeEntities (groupTargets env rawTarget ft)) = []"
    by (simp add: dedupeEntities_def)
qed

lemma brightnessAttempt_group:
  assumes "valueOf m = Some v" and "isAllRequest m"
  shows "brightnessAttempt env getLast sender m =
     (if list_ex (\<lambda>c. wantedLight (filterTokensOf m) (ent c))
           (groupCandidates env (rawTargetOf m) (filterTokensOf m))
      then Return (Some (brightnessIntent True v
             (filter supportsBrightness (dedupeEntities
                (groupTargets env (rawTargetOf m) (filterTokensOf m))))))
      else Continue)"
  using assms group_dimmable_empty_iff [of env "rawTargetOf m" "filterTokensOf m"]
  by (simp add: brightnessAttempt_def Let_def)

text \<open>
  C8 (as amended). Take a brightness pattern that matches the text, is reached (every
  pattern before it fails to match or continues) and whose target tokens include \<open>all\<close>
  (group mode). The detector gathers among the candidates that candidate search returns for
  the filter tokens (\<open>groupCandidates\<close>: \<open>findEntityCandidates\<close> with limit 50 and preferred
  domain \<open>light\<close>, for the query of the filter tokens, or of the raw target when none is
  left). If one of them is a brightness-capable light whose normalized text or lowercased
  id contains every filter token, the detector returns an intent whose actions are exactly
  one \<open>light.turn_on\<close> with the clamped value per such light: every action is for such a
  candidate, every such candidate has an action, and no entity has two. If none is, this
  pattern yields no intent. Conversely every intent the detector returns from a group
  match has these actions. Entities that are not lights or not brightness-capable get no
  action.
\<close>

theorem group_mode_actions:
  "(\<forall>pre p post m.
       brightnessPatterns = pre @ p # post
       \<and> (\<forall>q\<in>set pre. matchStart q (trim (toLowerCase text)) = None
              \<or> (\<exists>m'. matchStart q (trim (toLowerCase text)) = Some m'
                     \<and> brightnessAttempt env getLast sender m' = Continue))
       \<and> matchStart p (trim (toLowerCase text)) = Some m
       \<and> isAllRequest m
      \<longrightarrow> (\<exists>v. valueOf m = Some v
            \<and> (if list_ex (\<lambda>c. wantedLight (filterTokensOf m) (ent c))
                     (groupCandidates env (rawTargetOf m) (filterTokensOf m))
                then \<exists>r. detectBrightnessCommand env getLast text sender = Some r
                       \<and> brightnessAttempt env getLast sender m = Return (Some r)
                       \<and> actions r \<noteq> []
                       \<and> oneActionPerLight
                            (groupCandidates env (rawTargetOf m) (filterTokensOf m))
                            (filterTokensOf m) v (actions r)
                else brightnessAttempt env getLast sender m = Continue)))
   \<and> (\<forall>r. detectBrightnessCommand env getLast text sender = Some r \<longrightarrow>
         (\<exists>p\<in>set brightnessPatterns. \<exists>m v.
            matchStart p (trim (toLowerCase text)) = Some m
            \<and> brightnessAttempt env getLast sender m = Return (Some r)
            \<and> valueOf m = Some v
            \<and> (isAllRequest m \<longrightarrow>
                  oneActionPerLight
                    (groupCandidates env (rawTargetOf m) (filterTokensOf m))
                    (filterTokensOf m) v (actions r))))
   \<and> (\<forall>m. groupCandidates env (rawTargetOf m) (filterTokensOf m)
             = findEntityCandidates env
                 (if joinWith '' '' (filterTokensOf m) = [] then rawTargetOf m
                  else joinWith '' '' (filterTokensOf m)) 50 [''light'']
           \<and> length (groupCandidates env (rawTargetOf m) (filterTokensOf m)) \<le> 50)"
proof (intro conjI allI impI)
  fix pre p post m
  let ?L = "trim (toLowerCase text)"
  let ?C = "groupCandidates env (rawTargetOf m) (filterTokensOf m)"
  let ?D = "filter supportsBrightness (dedupeEntities
                (groupTargets env (rawTargetOf m) (filterTokensOf m)))"
  assume "brightnessPatterns = pre @ p # post
       \<and> (\<forall>q\<in>set pre. matchStart q ?L = None
              \<or> (\<exists>m'. matchStart q ?L = Some m'
                     \<and> brightnessAttempt env getLast sender m' = Continue))
       \<and> matchStart p ?L = Some m
       \<and> isAllRequest m"
  then have h1: "brightnessPatterns = pre @ p # post"
    and h2: "\<forall>q\<in>set pre. matchStart q ?L = None
              \<or> (\<exists>m'. matchStart q ?L = Some m'
                     \<and> brightnessAttempt env getLast sender m' = Continue)"
    and h3: "matchStart p ?L = Some m"
    and h4: "isAllRequest m"
    by blast+
  have "p \<in> set brightnessPatterns" unfolding h1 by simp
  from valueOf_pattern [OF this h3] obtain v where v: "valueOf m = Some v" by blast
  note att = brightnessAttempt_group [OF v h4, of env getLast sender]
  have skip: "detectBrightnessCommand env getLast text sender
          = brightnessLoop env getLast sender ?L (p # post)"
    unfolding detectBrightnessCommand_def h1 by (rule brightnessLoop_skip [OF h2])
  show "\<exists>v. valueOf m = Some v
            \<and> (if list_ex (\<lambda>c. wantedLight (filterTokensOf m) (ent c)) ?C
                then \<exists>r. detectBrightnessCommand env getLast text sender = Some r
                       \<and> brightnessAttempt env getLast sender m = Return (Some r)
                       \<and> actions r \<noteq> []
                       \<and> oneActionPerLight ?C (filterTokensOf m) v (actions r)
                else brightnessAttempt env getLast sender m = Continue)"
  proof (cases "list_ex (\<lambda>c. wantedLight (filterTokensOf m) (ent c)) ?C")
    case True
    then have a: "brightnessAttempt env getLast sender m
        = Return (Some (brightnessIntent True v ?D))"
      using att by simp
    have d: "detectBrightnessCommand env getLast text sender = Some (brightnessIntent True v ?D)"
      unfolding skip using h3 a by simp
    have ne: "?D \<noteq> []"
      using True group_dimmable_empty_iff [of env "rawTargetOf m" "filterTokensOf m"] by blast
    have o: "oneActionPerLight ?C (filterTokensOf m) v (actions (brightnessIntent True v ?D))"
      unfolding brightnessIntent_actions by (rule group_oneActionPerLight)
    have "actions (brightnessIntent True v ?D) \<noteq> []"
      using ne by (simp add: brightnessIntent_actions)
    with True v a d o show ?thesis by auto
  next
    case False
    with att v show ?thesis by simp
  qed
next
  fix r
  assume "detectBrightnessCommand env getLast text sender = Some r"
  then obtain p m where p: "p \<in> set brightnessPatterns"
    and m: "matchStart p (trim (toLowerCase text)) = Some m"
    and a: "brightnessAttempt env getLast sender m = Return (Some r)"
    using brightnessLoop_Some unfolding detectBrightnessCommand_def by blast
  from brightnessAttempt_Some [OF a] obtain v where v: "valueOf m = Some v"
    and r: "r = brightnessIntent (isAllRequest m) v
           (filter supportsBrightness (dedupeEntities
              (if isAllRequest m then groupTargets env (rawTargetOf m) (filterTokensOf m)
               else segmentTargets env getLast sender (splitConjunctionTargets (rawTargetOf m)))))"
    by blast
  have "isAllRequest m \<longrightarrow>
          oneActionPerLight (groupCandidates env (rawTargetOf m) (filterTokensOf m))
            (filterTokensOf m) v (actions r)"
    unfolding r by (simp add: brightnessIntent_actions group_oneActionPerLight)
  with p m a v show "\<exists>p\<in>set brightnessPatterns. \<exists>m v.
            matchStart p (trim (toLowerCase text)) = Some m
            \<and> brightnessAttempt env getLast sender m = Return (Some r)
            \<and> valueOf m = Some v
            \<and> (isAllRequest m \<longrightarrow>
                  oneActionPerLight
                    (groupCandidates env (rawTargetOf m) (filterTokensOf m))
                    (filterTokensOf m) v (actions r))"
    by blast
next
  fix m
  show "groupCandidates env (rawTargetOf m) (filterTokensOf m)
             = findEntityCandidates env
                 (if joinWith '' '' (filterTokensOf m) = [] then rawTargetOf m
                  else joinWith '' '' (filterTokensOf m)) 50 [''light'']"
    by (simp add: groupCandidates_def Let_def)
  show "length (groupCandidates env (rawTargetOf m) (filterTokensOf m)) \<le> 50"
    unfolding groupCandidates_def Let_def by (rule findEntityCandidates_length) simp
qed

text \<open>
  C7 (as amended). Whenever \<open>detectBrightnessCommand\<close> returns an intent, the text matched a
  pattern whose value group is one to three decimal digits, and every action carries
  \<open>brightness_pct = min 100 n\<close> for the number \<open>n\<close> these digits denote, a value in
  [0, 100]; so the value \<open>150\<close> yields 100. A value that is not such a digit group (one
  with a sign such as \<open>-5\<close>, or a non-numeric one) is matched by no pattern.
\<close>

theorem brightness_value_clamped:
  "(\<forall>p m s. p \<in> set brightnessPatterns \<and> matchStart p s = Some m \<longrightarrow>
      (\<exists>d n. m 2 = Some d \<and> d \<noteq> [] \<and> length d \<le> 3 \<and> list_all isDigit d
           \<and> parseInt10 d = Some (int n) \<and> valueOf m = Some (min 100 (int n))))
   \<and> (\<forall>r. detectBrightnessCommand env getLast text sender = Some r \<longrightarrow>
         (\<exists>p\<in>set brightnessPatterns. \<exists>m d n.
            matchStart p (trim (toLowerCase text)) = Some m
            \<and> m 2 = Some d \<and> d \<noteq> [] \<and> length d \<le> 3 \<and> list_all isDigit d
            \<and> parseInt10 d = Some (int n)
            \<and> actions r \<noteq> []
            \<and> (\<forall>a\<in>set (actions r).
                  brightness_pct a = Some (min 100 (int n))
                  \<and> 0 \<le> min 100 (int n) \<and> min 100 (int n) \<le> 100)))"
proof (intro conjI allI impI)
  fix p m s
  assume "p \<in> set brightnessPatterns \<and> matchStart p s = Some m"
  then have "p \<in> set brightnessPatterns" and "matchStart p s = Some m" by blast+
  from valueOf_pattern [OF this]
  show "\<exists>d n. m 2 = Some d \<and> d \<noteq> [] \<and> length d \<le> 3 \<and> list_all isDigit d
           \<and> parseInt10 d = Some (int n) \<and> valueOf m = Some (min 100 (int n))"
    unfolding digitGroup_def by blast
next
  fix r
  assume "detectBrightnessCommand env getLast text sender = Some r"
  then obtain p m where p: "p \<in> set brightnessPatterns"
    and m: "matchStart p (trim (toLowerCase text)) = Some m"
    and a: "brightnessAttempt env getLast sender m = Return (Some r)"
    using brightnessLoop_Some unfolding detectBrightnessCommand_def by blast
  from valueOf_pattern [OF p m] obtain d n where d: "m 2 = Some d" "digitGroup d"
    "parseInt10 d = Some (int n)" and v: "valueOf m = Some (min 100 (int n))" by blast
  have ne: "actions r \<noteq> []"
    using a v by (auto simp: brightnessAttempt_def Let_def brightnessIntent_actions split: if_splits)
  from brightnessAttempt_Some [OF a] v obtain es where "r = brightnessIntent (isAllRequest m) (min 100 (int n)) es"
    by auto
  then have "\<forall>a\<in>set (actions r). brightness_pct a = Some (min 100 (int n))"
    by (auto simp: brightnessIntent_actions brightnessAction_def)
  then show "\<exists>p\<in>set brightnessPatterns. \<exists>m d n.
            matchStart p (trim (toLowerCase text)) = Some m
            \<and> m 2 = Some d \<and> d \<noteq> [] \<and> length d \<le> 3 \<and> list_all isDigit d
            \<and> parseInt10 d = Some (int n)
            \<and> actions r \<noteq> []
            \<and> (\<forall>a\<in>set (actions r).
                  brightness_pct a = Some (min 100 (int n))
                  \<and> 0 \<le> min 100 (int n) \<and> min 100 (int n) \<le> 100)"
    using p m d ne unfolding digitGroup_def
    by (intro bexI [of _ p] exI [of _ m] exI [of _ d] exI [of _ n]) auto
qed

theorem brightness_value_clamped_witness:
  "\<exists>r. detectBrightnessCommand livingRoomEnv noLastEntity ''Set couch to 150'' ''u'' = Some r
     \<and> map (\<lambda>a. (act_entity_id a, brightness_pct a)) (actions r) = [(''light.couch'', Some 100)]
     \<and> (\<exists>p\<in>set brightnessPatterns. \<exists>m d n.
           matchStart p (trim (toLowerCase ''Set couch to 150'')) = Some m
           \<and> m 2 = Some d \<and> parseInt10 d = Some (int n)
           \<and> (\<forall>a\<in>set (actions r). brightness_pct a = Some (min 100 (int n))))"
proof -
  have e: "detectBrightnessCommand livingRoomEnv noLastEntity ''Set couch to 150'' ''u'' =
      Some \<lparr>actions = [brightnessAction 100 (mkEntity ''light.couch'' ''light'' ''Couch Lamp'' None True)],
            successMessage = ''Couch Lamp set to 100%''\<rparr>"
    by code_simp
  have "map (\<lambda>a. (act_entity_id a, brightness_pct a))
          [brightnessAction 100 (mkEntity ''light.couch'' ''light'' ''Couch Lamp'' None True)]
        = [(''light.couch'', Some 100)]"
    by code_simp
  then show ?thesis
    using brightness_value_clamped [of livingRoomEnv noLastEntity "''Set couch to 150''" "''u''"] e
    by auto
qed

text \<open>
  The claim as stated fails for the value \<open>-5\<close>: \<open>clampPercent\<close> would map it to 0, but no
  pattern matches \<open>set couch to -5\<close> (the value group is \<open>\d{1,3}\<close>) and the detector
  returns null, although \<open>set couch to 5\<close> resolves.
\<close>

theorem brightness_negative_value_unmatched:
  "clampPercent (parseInt10 ''-5'') = Some 0
   \<and> detectBrightnessCommand livingRoomEnv noLastEntity ''set couch to 5'' ''u'' \<noteq> None
   \<and> list_all (\<lambda>p. matchStart p ''set couch to -5'' = None) brightnessPatterns
   \<and> detectBrightnessCommand livingRoomEnv noLastEntity ''set couch to -5'' ''u'' = None"
  by code_simp

text \<open>
  The claim C8 as stated fails: for \<open>set all the lights to 20%\<close> the one remaining filter
  token is \<open>the\<close>; the wall lamp is a brightness-capable light whose normalized text
  contains it, but candidate search drops the stop word, returns nothing, and the detector
  returns null.
\<close>

theorem group_mode_misses_light:
  "map_option rawTargetOf (matchStart (brightnessPatterns ! 0) ''set all the lights to 20%'')
     = Some ''all the lights''
   \<and> filter (\<lambda>token. token \<notin> set fillerTokens) (tokenizeForMatch ''all the lights'') = [''the'']
   \<and> map entity_id
        (filter (\<lambda>e. domain e = ''light'' \<and> supportsBrightness e \<and> includesStr (normalized e) ''the'')
           (searchIndex (ctx livingRoomEnv))) = [''light.the_wall'']
   \<and> detectBrightnessCommand livingRoomEnv noLastEntity ''set all the lights to 20%'' ''u'' = None"
  by code_simp

theorem group_mode_actions_witness:
  "\<exists>r v. detectBrightnessCommand scenarioDEnv noLastEntity ''set all kitchen lights to 20%'' ''u'' = Some r
     \<and> map (\<lambda>a. (service a, act_entity_id a, brightness_pct a)) (actions r)
         = [(''light.turn_on'', ''light.counter'', Some 20), (''light.turn_on'', ''light.island'', Some 20),
            (''light.turn_on'', ''light.sink'', Some 20)]
     \<and> oneActionPerLight (groupCandidates scenarioDEnv ''all kitchen lights'' [''kitchen''])
          [''kitchen''] v (actions r)"
proof -
  let ?t = "''set all kitchen lights to 20%''"
  let ?p = "brightnessPatterns ! 0"
  have e: "detectBrightnessCommand scenarioDEnv noLastEntity ?t ''u'' =
      Some \<lparr>actions = map (brightnessAction 20) (take 3 scenarioD),
            successMessage = ''3 lights set to 20%''\<rparr>"
    by code_simp
  have vals: "map (\<lambda>a. (service a, act_entity_id a, brightness_pct a)) (map (brightnessAction 20) (take 3 scenarioD))
         = [(''light.turn_on'', ''light.counter'', Some 20), (''light.turn_on'', ''light.island'', Some 20),
            (''light.turn_on'', ''light.sink'', Some 20)]"
    by code_simp
  have L: "trim (toLowerCase ?t) = ?t" by code_simp
  have pats: "brightnessPatterns = [] @ ?p # tl brightnessPatterns"
    by (simp add: brightnessPatterns_def)
  have "map_option rawTargetOf (matchStart ?p ?t) = Some ''all kitchen lights''"
    by code_simp
  then obtain m where m: "matchStart ?p ?t = Some m" and raw: "rawTargetOf m = ''all kitchen lights''"
    by auto
  have al: "isAllRequest m"
  proof -
    have "''all'' \<in> set (tokenizeForMatch ''all kitchen lights'')" by code_simp
    then show ?thesis unfolding isAllRequest_def raw .
  qed
  have ft: "filterTokensOf m = [''kitchen'']"
    unfolding filterTokensOf_def raw by code_simp
  have w: "list_ex (\<lambda>c. wantedLight [''kitchen''] (ent c))
             (groupCandidates scenarioDEnv ''all kitchen lights'' [''kitchen''])"
    by code_simp
  have hyp: "brightnessPatterns = [] @ ?p # tl brightnessPatterns
       \<and> (\<forall>q\<in>set []. matchStart q (trim (toLowerCase ?t)) = None
              \<or> (\<exists>m'. matchStart q (trim (toLowerCase ?t)) = Some m'
                     \<and> brightnessAttempt scenarioDEnv noLastEntity ''u'' m' = Continue))
       \<and> matchStart ?p (trim (toLowerCase ?t)) = Some m
       \<and> isAllRequest m"
    using pats m al unfolding L by simp
  note reached = group_mode_actions [of ?t scenarioDEnv noLastEntity "''u''", THEN conjunct1,
      rule_format, of "[]" ?p "tl brightnessPatterns" m]
  from reached [OF hyp] obtain v where
    "if list_ex (\<lambda>c. wantedLight (filterTokensOf m) (ent c))
          (groupCandidates scenarioDEnv (rawTargetOf m) (filterTokensOf m))
     then \<exists>r. detectBrightnessCommand scenarioDEnv noLastEntity ?t ''u'' = Some r
            \<and> brightnessAttempt scenarioDEnv noLastEntity ''u'' m = Return (Some r)
            \<and> actions r \<noteq> []
            \<and> oneActionPerLight
                 (groupCandidates scenarioDEnv (rawTargetOf m) (filterTokensOf m))
                 (filterTokensOf m) v (actions r)
     else brightnessAttempt scenarioDEnv noLastEntity ''u'' m = Continue"
    by blast
  then obtain r where r: "detectBrightnessCommand scenarioDEnv noLastEntity ?t ''u'' = Some r"
    and o: "oneActionPerLight (groupCandidates scenarioDEnv ''all kitchen lights'' [''kitchen''])
          [''kitchen''] v (actions r)"
    unfolding raw ft using w by auto
  from r e have "r = \<lparr>actions = map (brightnessAction 20) (take 3 scenarioD),
            successMessage = ''3 lights set to 20%''\<rparr>" by simp
  then have "actions r = map (brightnessAction 20) (take 3 scenarioD)" by simp
  with r o vals show ?thesis by (intro exI [of _ r] exI [of _ v]) simp
qed

text \<open>
  C3. Take a brightness pattern that matches the text and is reached (every pattern before
  it fails to match or continues). If its target has no \<open>all\<close> token, splits into more than
  one segment and fewer targets than segments resolve, \<open>detectBrightnessCommand\<close> returns
  null. And whenever the detector returns an intent, the match that produced it was a
  group request, or had at most one segment, or resolved at least as many targets as
  segments: never a partial list.
\<close>

theorem brightness_partial_abandons:
  "(\<forall>pre p post m.
       brightnessPatterns = pre @ p # post
       \<and> (\<forall>q\<in>set pre. matchStart q (trim (toLowerCase text)) = None
              \<or> (\<exists>m'. matchStart q (trim (toLowerCase text)) = Some m'
                     \<and> brightnessAttempt env getLast sender m' = Continue))
       \<and> matchStart p (trim (toLowerCase text)) = Some m
       \<and> \<not> isAllRequest m
       \<and> 1 < length (splitConjunctionTargets (rawTargetOf m))
       \<and> length (segmentTargets env getLast sender (splitConjunctionTargets (rawTargetOf m)))
            < length (splitConjunctionTargets (rawTargetOf m))
      \<longrightarrow> detectBrightnessCommand env getLast text sender = None)
   \<and> (\<forall>r. detectBrightnessCommand env getLast text sender = Some r \<longrightarrow>
         (\<exists>p\<in>set brightnessPatterns. \<exists>m.
            matchStart p (trim (toLowerCase text)) = Some m
            \<and> brightnessAttempt env getLast sender m = Return (Some r)
            \<and> (isAllRequest m
                \<or> length (splitConjunctionTargets (rawTargetOf m)) \<le> 1
                \<or> length (splitConjunctionTargets (rawTargetOf m))
                     \<le> length (segmentTargets env getLast sender
                                 (splitConjunctionTargets (rawTargetOf m))))))"
proof (intro conjI allI impI)
  fix pre p post m
  let ?L = "trim (toLowerCase text)"
  assume h: "brightnessPatterns = pre @ p # post
       \<and> (\<forall>q\<in>set pre. matchStart q ?L = None
              \<or> (\<exists>m'. matchStart q ?L = Some m'
                     \<and> brightnessAttempt env getLast sender m' = Continue))
       \<and> matchStart p ?L = Some m
       \<and> \<not> isAllRequest m
       \<and> 1 < length (splitConjunctionTargets (rawTargetOf m))
       \<and> length (segmentTargets env getLast sender (splitConjunctionTargets (rawTargetOf m)))
            < length (splitConjunctionTargets (rawTargetOf m))"
  then have h1: "brightnessPatterns = pre @ p # post"
    and h2: "\<forall>q\<in>set pre. matchStart q ?L = None
              \<or> (\<exists>m'. matchStart q ?L = Some m'
                     \<and> brightnessAttempt env getLast sender m' = Continue)"
    and h3: "matchStart p ?L = Some m"
    and h4: "\<not> isAllRequest m"
    and h5: "1 < length (splitConjunctionTargets (rawTargetOf m))"
    and h6: "length (segmentTargets env getLast sender (splitConjunctionTargets (rawTargetOf m)))
            < length (splitConjunctionTargets (rawTargetOf m))"
    by blast+
  have "p \<in> set brightnessPatterns" unfolding h1 by simp
  from valueOf_pattern [OF this h3] obtain v where v: "valueOf m = Some v" by blast
  have att: "brightnessAttempt env getLast sender m = Return None"
    by (rule brightnessAttempt_partial [OF v h4 h5 h6])
  have "brightnessLoop env getLast sender ?L (pre @ p # post)
          = brightnessLoop env getLast sender ?L (p # post)"
    by (rule brightnessLoop_skip [OF h2])
  also have "\<dots> = None" using h3 att by simp
  finally show "detectBrightnessCommand env getLast text sender = None"
    unfolding detectBrightnessCommand_def h1 .
next
  fix r
  assume "detectBrightnessCommand env getLast text sender = Some r"
  then obtain p m where p: "p \<in> set brightnessPatterns"
    and m: "matchStart p (trim (toLowerCase text)) = Some m"
    and a: "brightnessAttempt env getLast sender m = Return (Some r)"
    using brightnessLoop_Some unfolding detectBrightnessCommand_def by blast
  from brightnessAttempt_Some [OF a]
  have "isAllRequest m
        \<or> length (splitConjunctionTargets (rawTargetOf m)) \<le> 1
        \<or> length (splitConjunctionTargets (rawTargetOf m))
             \<le> length (segmentTargets env getLast sender (splitConjunctionTargets (rawTargetOf m)))"
    by auto
  with p m a show "\<exists>p\<in>set brightnessPatterns. \<exists>m.
            matchStart p (trim (toLowerCase text)) = Some m
            \<and> brightnessAttempt env getLast sender m = Return (Some r)
            \<and> (isAllRequest m
                \<or> length (splitConjunctionTargets (rawTargetOf m)) \<le> 1
                \<or> length (splitConjunctionTargets (rawTargetOf m))
                     \<le> length (segmentTargets env getLast sender
                                 (splitConjunctionTargets (rawTargetOf m))))"
    by blast
qed

theorem brightness_partial_abandons_witness:
  "detectBrightnessCommand mixedEnv noLastEntity ''set couch and heater to 50'' ''u'' = None"
proof -
  let ?t = "''set couch and heater to 50''"
  let ?p = "brightnessPatterns ! 0"
  have L: "trim (toLowerCase ?t) = ?t" by code_simp
  have pats: "brightnessPatterns = [] @ ?p # tl brightnessPatterns"
    by (simp add: brightnessPatterns_def)
  have "map_option rawTargetOf (matchStart ?p ?t) = Some ''couch and heater''"
    by code_simp
  then obtain m where m: "matchStart ?p ?t = Some m" and raw: "rawTargetOf m = ''couch and heater''"
    by auto
  have na: "\<not> isAllRequest m"
  proof -
    have "''all'' \<notin> set (tokenizeForMatch ''couch and heater'')" by code_simp
    then show ?thesis unfolding isAllRequest_def raw .
  qed
  have segs: "splitConjunctionTargets (rawTargetOf m) = [''couch'', ''heater'']"
    unfolding raw by code_simp
  have tg: "length (segmentTargets mixedEnv noLastEntity ''u'' [''couch'', ''heater'']) = 1"
    by code_simp
  have "brightnessPatterns = [] @ ?p # tl brightnessPatterns
       \<and> (\<forall>q\<in>set []. matchStart q (trim (toLowerCase ?t)) = None
              \<or> (\<exists>m'. matchStart q (trim (toLowerCase ?t)) = Some m'
                     \<and> brightnessAttempt mixedEnv noLastEntity ''u'' m' = Continue))
       \<and> matchStart ?p (trim (toLowerCase ?t)) = Some m
       \<and> \<not> isAllRequest m
       \<and> 1 < length (splitConjunctionTargets (rawTargetOf m))
       \<and> length (segmentTargets mixedEnv noLastEntity ''u'' (splitConjunctionTargets (rawTargetOf m)))
            < length (splitConjunctionTargets (rawTargetOf m))"
    using pats m na tg unfolding L segs by simp
  with brightness_partial_abandons [of ?t mixedEnv noLastEntity "''u''"]
  show ?thesis by blast
qed

end
